theory Spec2Isabelle
  imports Complex_Main "HOL-Library.AList"
begin

section \<open>Data model of trains.py\<close>

text \<open>
  Python exceptions the modelled functions can raise: a dictionary lookup with a missing
  key raises KeyError; indexing or choosing from an empty sequence raises IndexError.
\<close>

datatype error = KeyError | IndexError

text \<open>
  A connection stored at a station is the tuple \<open>(target, line, direction)\<close>;
  the raw connection record read from the file is \<open>(from, to, line, direction)\<close>.
\<close>

type_synonym connection = "string \<times> string \<times> string"
type_synonym connection_record = "string \<times> string \<times> string \<times> string"

record Station =
  name :: string
  delay_constant :: real
  connections :: "connection list"

record Train =
  train_name :: nat
  station :: string
  line :: string
  course :: string

text \<open>
  A Python dict keeps insertion order and has unique keys: an association list read
  with \<open>map_of\<close> and written with \<open>AList.update\<close> (replace in place, else append).
\<close>

type_synonym station_catalog = "(string \<times> Station) list"
type_synonym graph = "(string \<times> string list) list"

section \<open>Station.breadth_first_pathfind\<close>

text \<open>
  The inner \<open>for neighbour in connections\<close> loop: each neighbour extends the search
  path, the extension is appended to the queue, and the extension is returned at once
  (\<open>Inl\<close>) when the neighbour is the goal; otherwise the loop ends with the grown queue.
\<close>

fun enqueue_neighbours ::
  "string list \<Rightarrow> string \<Rightarrow> string list \<Rightarrow> string list list \<Rightarrow> string list + string list list"
where
  "enqueue_neighbours search_path goal [] queue = Inr queue"
| "enqueue_neighbours search_path goal (neighbour # rest) queue =
     (let shortest_path = search_path @ [neighbour];
          queue' = queue @ [shortest_path]
      in if neighbour = goal then Inl shortest_path
         else enqueue_neighbours search_path goal rest queue')"

text \<open>
  The \<open>while queue\<close> loop. \<open>search_path[-1]\<close> of an empty path raises IndexError and
  \<open>graph[station]\<close> of a missing station raises KeyError.
\<close>

function bfs_loop ::
  "graph \<Rightarrow> string \<Rightarrow> string list \<Rightarrow> string list list \<Rightarrow> error + string list"
where
  "bfs_loop graph goal explored [] = Inr []"
| "bfs_loop graph goal explored (search_path # queue) =
     (if search_path = [] then Inl IndexError
      else if last search_path \<in> set explored then bfs_loop graph goal explored queue
      else (case map_of graph (last search_path) of
              None \<Rightarrow> Inl KeyError
            | Some conns \<Rightarrow>
                (case enqueue_neighbours search_path goal conns queue of
                   Inl shortest_path \<Rightarrow> Inr shortest_path
                 | Inr queue' \<Rightarrow>
                     bfs_loop graph goal (explored @ [last search_path]) queue')))"
  by pat_completeness auto

termination
proof (relation "inv_image (less_than <*lex*> less_than)
         (\<lambda>(graph, goal, explored, queue).
            (card (fst ` set graph - set explored), length queue))")
  show "wf (inv_image (less_than <*lex*> less_than)
         (\<lambda>(graph, goal, explored, queue).
            (card (fst ` set graph - set explored), length queue)))"
    by (intro wf_inv_image wf_lex_prod wf_less_than)
next
  fix graph :: graph and goal :: string and explored :: "string list"
    and search_path :: "string list" and queue :: "string list list"
  show "((graph, goal, explored, queue), (graph, goal, explored, search_path # queue))
        \<in> inv_image (less_than <*lex*> less_than)
           (\<lambda>(graph, goal, explored, queue).
              (card (fst ` set graph - set explored), length queue))"
    by simp
next
  fix graph :: graph and goal :: string and explored :: "string list"
    and search_path :: "string list" and queue :: "string list list"
    and conns :: "string list" and queue' :: "string list list"
  assume unexplored: "last search_path \<notin> set explored"
    and known: "map_of graph (last search_path) = Some conns"
  from known have "last search_path \<in> fst ` set graph"
    by (metis map_of_SomeD fst_conv image_eqI)
  with unexplored have
    "fst ` set graph - set (explored @ [last search_path]) \<subset> fst ` set graph - set explored"
    by auto
  then have "card (fst ` set graph - set (explored @ [last search_path]))
             < card (fst ` set graph - set explored)"
    by (intro psubset_card_mono) auto
  then show "((graph, goal, explored @ [last search_path], queue'),
              (graph, goal, explored, search_path # queue))
        \<in> inv_image (less_than <*lex*> less_than)
           (\<lambda>(graph, goal, explored, queue).
              (card (fst ` set graph - set explored), length queue))"
    by simp
qed

definition breadth_first_pathfind :: "graph \<Rightarrow> string \<Rightarrow> string \<Rightarrow> error + string list" where
  "breadth_first_pathfind graph start goal = bfs_loop graph goal [] [ [start] ]"


subsection \<open>Walks and hop counts of a connection graph\<close>

text \<open>
  \<open>edge graph u v\<close>: \<open>v\<close> is listed among \<open>graph[u]\<close>. A walk is a non-empty list of
  stations in which each consecutive pair is an edge; it has \<open>length - 1\<close> hops.
\<close>

definition edge :: "graph \<Rightarrow> string \<Rightarrow> string \<Rightarrow> bool" where
  "edge graph u v = (case map_of graph u of None \<Rightarrow> False | Some conns \<Rightarrow> v \<in> set conns)"

fun walk :: "graph \<Rightarrow> string list \<Rightarrow> bool" where
  "walk graph [] = False"
| "walk graph [u] = True"
| "walk graph (u # v # rest) = (edge graph u v \<and> walk graph (v # rest))"

definition walk_between :: "graph \<Rightarrow> string \<Rightarrow> string \<Rightarrow> string list \<Rightarrow> bool" where
  "walk_between graph start goal w = (walk graph w \<and> hd w = start \<and> last w = goal)"

definition hops :: "graph \<Rightarrow> string \<Rightarrow> string \<Rightarrow> nat \<Rightarrow> bool" where
  "hops graph start goal n = (\<exists>w. walk_between graph start goal w \<and> length w = Suc n)"

text \<open>The true minimum hop count: a station reaches itself in zero hops.\<close>

definition min_hops :: "graph \<Rightarrow> string \<Rightarrow> string \<Rightarrow> nat" where
  "min_hops graph start goal = (LEAST n. hops graph start goal n)"

text \<open>The minimum hop count over walks that take at least one hop.\<close>

definition min_hops1 :: "graph \<Rightarrow> string \<Rightarrow> string \<Rightarrow> nat" where
  "min_hops1 graph start goal = (LEAST n. 1 \<le> n \<and> hops graph start goal n)"

text \<open>\<open>goal\<close> is unreachable from \<open>start\<close>: no walk leads from one to the other.\<close>

definition unreachable :: "graph \<Rightarrow> string \<Rightarrow> string \<Rightarrow> bool" where
  "unreachable graph start goal = (\<not> (\<exists>n. hops graph start goal n))"

text \<open>
  A connection graph names only stations it has as keys (the Station invariant of the
  data model: every connection target exists in the registry).
\<close>

definition graph_closed :: "graph \<Rightarrow> bool" where
  "graph_closed graph = (\<forall>(key, conns) \<in> set graph. set conns \<subseteq> fst ` set graph)"

section \<open>Station.build_catalog, Station.map_connections, Station.build_graph\<close>

text \<open>
  The dict comprehension of \<open>Station.build_catalog\<close>: a repeated name keeps its first
  position and takes the last Station built for it.
\<close>

definition Station_build_catalog :: "(string \<times> real) list \<Rightarrow> station_catalog" where
  "Station_build_catalog station_list =
     fold (\<lambda>(station, delay_constant) catalog.
             AList.update station
               \<lparr>name = station, delay_constant = delay_constant, connections = []\<rparr> catalog)
          station_list []"

text \<open>\<open>catalog[key].connections.append(entry)\<close>, KeyError when the key is missing.\<close>

definition append_connection ::
  "station_catalog \<Rightarrow> string \<Rightarrow> connection \<Rightarrow> error + station_catalog"
where
  "append_connection catalog key entry =
     (case map_of catalog key of
        None \<Rightarrow> Inl KeyError
      | Some st \<Rightarrow>
          Inr (AList.update key (st\<lparr>connections := connections st @ [entry]\<rparr>) catalog))"

text \<open>The inverse tuple built in the second loop of \<open>map_connections\<close>.\<close>

fun inverse_of :: "connection_record \<Rightarrow> connection" where
  "inverse_of (a, b, l, d) = (if d = ''S'' then (a, l, ''N'') else (a, l, ''S''))"

text \<open>The opposite direction, as that loop computes it: S gives N, anything else gives S.\<close>

definition opposite :: "string \<Rightarrow> string" where
  "opposite d = (if d = ''S'' then ''N'' else ''S'')"

text \<open>First loop: \<open>catalog[element[0]].connections.append(element[1:])\<close>.\<close>

fun forward_loop :: "connection_record list \<Rightarrow> station_catalog \<Rightarrow> error + station_catalog" where
  "forward_loop [] catalog = Inr catalog"
| "forward_loop (element # rest) catalog =
     (case append_connection catalog (fst element) (snd element) of
        Inl e \<Rightarrow> Inl e
      | Inr catalog' \<Rightarrow> forward_loop rest catalog')"

text \<open>Second loop: \<open>catalog[element[1]].connections.append(inverse)\<close>.\<close>

fun inverse_loop :: "connection_record list \<Rightarrow> station_catalog \<Rightarrow> error + station_catalog" where
  "inverse_loop [] catalog = Inr catalog"
| "inverse_loop (element # rest) catalog =
     (case append_connection catalog (fst (snd element)) (inverse_of element) of
        Inl e \<Rightarrow> Inl e
      | Inr catalog' \<Rightarrow> inverse_loop rest catalog')"

definition map_connections ::
  "(string \<times> real) list \<Rightarrow> connection_record list \<Rightarrow> error + station_catalog"
where
  "map_connections stations_list connections_list =
     (case forward_loop connections_list (Station_build_catalog stations_list) of
        Inl e \<Rightarrow> Inl e
      | Inr catalog \<Rightarrow> inverse_loop connections_list catalog)"

text \<open>
  \<open>Station.build_graph\<close>: every key of the catalog, with the targets (\<open>entry[0]\<close>) of
  its connections in order.
\<close>

definition build_graph :: "station_catalog \<Rightarrow> graph" where
  "build_graph station_catalog =
     map (\<lambda>(key, val). (key, map fst (connections val))) station_catalog"

section \<open>Train.reverse, Train.move, Train.simulate_turn\<close>

definition reverse :: "Train \<Rightarrow> Train" where
  "reverse self = (if course self = ''N'' then self\<lparr>course := ''S''\<rparr> else self\<lparr>course := ''N''\<rparr>)"

text \<open>
  Python's \<open>x in connection\<close> on the tuple \<open>(target, line, direction)\<close>: true when
  \<open>x\<close> equals any of the three components.
\<close>

fun in_connection :: "string \<Rightarrow> connection \<Rightarrow> bool" where
  "in_connection x (target, l, d) = (x = target \<or> x = l \<or> x = d)"

text \<open>
  The \<open>for connection in ...connections\<close> loop of \<open>move\<close>: the first connection that
  contains both the line and the course moves the train and returns True; the loop
  falling through returns False.
\<close>

fun move_scan :: "Train \<Rightarrow> connection list \<Rightarrow> bool \<times> Train" where
  "move_scan self [] = (False, self)"
| "move_scan self (connection # rest) =
     (if in_connection (line self) connection \<and> in_connection (course self) connection
      then (True, self\<lparr>station := fst connection\<rparr>)
      else move_scan self rest)"

definition move :: "Train \<Rightarrow> station_catalog \<Rightarrow> error + bool \<times> Train" where
  "move self station_catalog =
     (case map_of station_catalog (station self) of
        None \<Rightarrow> Inl KeyError
      | Some here \<Rightarrow>
          (let connections_data = map snd (connections here);
               match = ((line self, course self) \<in> set connections_data);
               self' = (if match = False then reverse self else self)
           in Inr (move_scan self' (connections here))))"

text \<open>
  \<open>simulate_turn\<close> over the trains in the registry's order. The train registry, a
  dict with the keys 1, 2, ... in insertion order whose values are distinct Train
  objects, is the list of its values. The random source is the sequence \<open>random\<close> of
  the samples \<open>random.random()\<close> returns and \<open>n\<close> counts the samples drawn so far; the
  result is the updated trains and the new count. The value \<open>move\<close> returns is dropped.
\<close>

fun simulate_turn ::
  "station_catalog \<Rightarrow> Train list \<Rightarrow> (nat \<Rightarrow> real) \<Rightarrow> nat \<Rightarrow> error + Train list \<times> nat"
where
  "simulate_turn station_catalog [] random n = Inr ([], n)"
| "simulate_turn station_catalog (train # rest) random n =
     (case map_of station_catalog (station train) of
        None \<Rightarrow> Inl KeyError
      | Some current_location \<Rightarrow>
          (if delay_constant current_location > random n
           then (case simulate_turn station_catalog rest random (Suc n) of
                   Inl e \<Rightarrow> Inl e
                 | Inr (rest', n') \<Rightarrow> Inr (train # rest', n'))
           else (case move train station_catalog of
                   Inl e \<Rightarrow> Inl e
                 | Inr (ok, train') \<Rightarrow>
                     (case simulate_turn station_catalog rest random (Suc n) of
                        Inl e \<Rightarrow> Inl e
                      | Inr (rest', n') \<Rightarrow> Inr (train' # rest', n')))))"

section \<open>Train.build_catalog\<close>

text \<open>
  \<open>random.choice(xs)\<close> and \<open>random.choices(xs)[0]\<close>: IndexError on an empty list,
  otherwise the element at the index the random source picks (\<open>r\<close> is the raw draw,
  reduced to an index of \<open>xs\<close>).
\<close>

definition choice :: "'a list \<Rightarrow> nat \<Rightarrow> error + 'a" where
  "choice xs r = (if xs = [] then Inl IndexError else Inr (xs ! (r mod length xs)))"

text \<open>The distinct line ids of a connection list, in order of first appearance.\<close>

fun line_options_loop :: "connection list \<Rightarrow> string list \<Rightarrow> string list" where
  "line_options_loop [] line_options = line_options"
| "line_options_loop (connection # rest) line_options =
     (if fst (snd connection) \<notin> set line_options
      then line_options_loop rest (line_options @ [fst (snd connection)])
      else line_options_loop rest line_options)"

text \<open>
  The dict comprehension: train \<open>n + 1\<close> gets a random station and a random course, and
  the empty string as its line. \<open>pick\<close> is the sequence of raw draws, \<open>i\<close> counts them.
\<close>

fun seed_trains ::
  "string list \<Rightarrow> nat \<Rightarrow> nat \<Rightarrow> (nat \<Rightarrow> nat) \<Rightarrow> nat \<Rightarrow> error + Train list \<times> nat"
where
  "seed_trains stations n 0 pick i = Inr ([], i)"
| "seed_trains stations n (Suc k) pick i =
     (case choice stations (pick i) of
        Inl e \<Rightarrow> Inl e
      | Inr st \<Rightarrow>
          (case choice [''N'', ''S''] (pick (Suc i)) of
             Inl e \<Rightarrow> Inl e
           | Inr c \<Rightarrow>
               (case seed_trains stations (Suc n) k pick (Suc (Suc i)) of
                  Inl e \<Rightarrow> Inl e
                | Inr (trains, i') \<Rightarrow>
                    Inr (\<lparr>train_name = n + 1, station = st, line = [], course = c\<rparr> # trains,
                         i'))))"

text \<open>The \<open>for key in catalog\<close> loop: each train takes a random line of its station.\<close>

fun assign_lines ::
  "station_catalog \<Rightarrow> Train list \<Rightarrow> (nat \<Rightarrow> nat) \<Rightarrow> nat \<Rightarrow> error + Train list \<times> nat"
where
  "assign_lines station_catalog [] pick i = Inr ([], i)"
| "assign_lines station_catalog (train # rest) pick i =
     (case map_of station_catalog (station train) of
        None \<Rightarrow> Inl KeyError
      | Some st \<Rightarrow>
          (case choice (line_options_loop (connections st) []) (pick i) of
             Inl e \<Rightarrow> Inl e
           | Inr l \<Rightarrow>
               (case assign_lines station_catalog rest pick (Suc i) of
                  Inl e \<Rightarrow> Inl e
                | Inr (rest', i') \<Rightarrow> Inr (train\<lparr>line := l\<rparr> # rest', i'))))"

definition Train_build_catalog ::
  "station_catalog \<Rightarrow> nat \<Rightarrow> (nat \<Rightarrow> nat) \<Rightarrow> error + Train list"
where
  "Train_build_catalog station_catalog train_count pick =
     (case seed_trains (map fst station_catalog) 0 train_count pick 0 of
        Inl e \<Rightarrow> Inl e
      | Inr (catalog, i) \<Rightarrow>
          (case assign_lines station_catalog catalog pick i of
             Inl e \<Rightarrow> Inl e
           | Inr (catalog', i') \<Rightarrow> Inr catalog'))"

text \<open>
  The train-on-line property: the train's station is in the catalog and has a
  connection whose line id is the train's line.
\<close>

definition on_line :: "station_catalog \<Rightarrow> Train \<Rightarrow> bool" where
  "on_line station_catalog train =
     (case map_of station_catalog (station train) of
        None \<Rightarrow> False
      | Some st \<Rightarrow> line train \<in> set (map (\<lambda>c. fst (snd c)) (connections st)))"

text \<open>
  \<open>has_connection catalog key entry\<close>: the station stored under \<open>key\<close> lists
  \<open>entry\<close> among its connections.
\<close>

definition has_connection :: "station_catalog \<Rightarrow> string \<Rightarrow> connection \<Rightarrow> bool" where
  "has_connection catalog key entry =
     (case map_of catalog key of None \<Rightarrow> False | Some st \<Rightarrow> entry \<in> set (connections st))"

subsection \<open>The loop invariant of the search\<close>

text \<open>
  \<open>bfs_inv graph start goal E Q\<close>, for the explored set \<open>E\<close> and the queue \<open>Q\<close>:
  every queued path is a walk from \<open>start\<close>; the queue is ordered by length and spans at
  most two lengths; \<open>start\<close> is explored or queued; every edge out of an explored
  station leads to an explored or queued station; no explored station has an edge to
  \<open>goal\<close>; every walk shorter than the front path ends in an explored station; and
  every walk as long as the front path ends in an explored station or in the end of a
  queued path of that length.
\<close>

definition bfs_inv :: "graph \<Rightarrow> string \<Rightarrow> string \<Rightarrow> string set \<Rightarrow> string list list \<Rightarrow> bool" where
  "bfs_inv graph start goal E Q =
     ((\<forall>p\<in>set Q. walk graph p \<and> hd p = start) \<and>
      sorted (map length Q) \<and>
      (\<forall>p\<in>set Q. length p \<le> Suc (length (hd Q))) \<and>
      (start \<in> E \<or> (\<exists>p\<in>set Q. last p = start)) \<and>
      (\<forall>u\<in>E. \<forall>v. edge graph u v \<longrightarrow> v \<in> E \<or> (\<exists>p\<in>set Q. last p = v)) \<and>
      (\<forall>u\<in>E. \<not> edge graph u goal) \<and>
      (Q \<noteq> [] \<longrightarrow>
        (\<forall>w. walk graph w \<and> hd w = start \<and> length w < length (hd Q) \<longrightarrow> last w \<in> E)) \<and>
      (Q \<noteq> [] \<longrightarrow>
        (\<forall>w. walk graph w \<and> hd w = start \<and> length w = length (hd Q) \<longrightarrow>
           last w \<in> E \<or> (\<exists>p\<in>set Q. last p = last w \<and> length p = length (hd Q)))))"

text \<open>
  What the search must return: the empty list when no walk of at least one hop leads
  from \<open>start\<close> to \<open>goal\<close>, and otherwise a shortest such walk.
\<close>

definition bfs_result :: "graph \<Rightarrow> string \<Rightarrow> string \<Rightarrow> string list \<Rightarrow> bool" where
  "bfs_result graph start goal r =
     (if r = [] then (\<forall>w. walk_between graph start goal w \<longrightarrow> length w < 2)
      else walk_between graph start goal r \<and> 2 \<le> length r \<and>
           (\<forall>w. walk_between graph start goal w \<and> 2 \<le> length w \<longrightarrow> length r \<le> length w))"

subsection \<open>The match the specification describes, and example networks\<close>

text \<open>
  \<open>matches self c\<close>: the line id of the connection is the train's line and its
  direction is the train's course (the comparison \<open>move\<close> is specified to make).
\<close>

definition matches :: "Train \<Rightarrow> connection \<Rightarrow> bool" where
  "matches self c = (fst (snd c) = line self \<and> snd (snd c) = course self)"

text \<open>
  The line B - A - S running north, with a station named S: the catalog
  \<open>map_connections\<close> builds from the records (A, S, GREEN, N) and (B, A, GREEN, N).
\<close>

definition green_network :: station_catalog where
  "green_network =
     [(''A'', \<lparr>name = ''A'', delay_constant = 0,
              connections = [(''S'', ''GREEN'', ''N''), (''B'', ''GREEN'', ''S'')]\<rparr>),
      (''B'', \<lparr>name = ''B'', delay_constant = 0,
              connections = [(''A'', ''GREEN'', ''N'')]\<rparr>),
      (''S'', \<lparr>name = ''S'', delay_constant = 0,
              connections = [(''A'', ''GREEN'', ''S'')]\<rparr>)]"

text \<open>
  A station named like a line: the catalog \<open>map_connections\<close> builds from the records
  (A, VICTORIA, DISTRICT, S) and (A, B, VICTORIA, S).
\<close>

definition victoria_network :: station_catalog where
  "victoria_network =
     [(''A'', \<lparr>name = ''A'', delay_constant = 0,
              connections = [(''VICTORIA'', ''DISTRICT'', ''S''), (''B'', ''VICTORIA'', ''S'')]\<rparr>),
      (''B'', \<lparr>name = ''B'', delay_constant = 0,
              connections = [(''A'', ''VICTORIA'', ''N'')]\<rparr>),
      (''VICTORIA'', \<lparr>name = ''VICTORIA'', delay_constant = 0,
              connections = [(''A'', ''DISTRICT'', ''N'')]\<rparr>)]"

text \<open>The catalog built from the single record (A, VICTORIA, DISTRICT, N).\<close>

definition district_network :: station_catalog where
  "district_network =
     [(''A'', \<lparr>name = ''A'', delay_constant = 0,
              connections = [(''VICTORIA'', ''DISTRICT'', ''N'')]\<rparr>),
      (''VICTORIA'', \<lparr>name = ''VICTORIA'', delay_constant = 0,
              connections = [(''A'', ''DISTRICT'', ''S'')]\<rparr>)]"

section \<open>Properties of Station.map_connections\<close>

lemma keys_Station_build_catalog_fold:
  "fst ` set (fold (\<lambda>(station, delay_constant) catalog.
             AList.update station
               \<lparr>name = station, delay_constant = delay_constant, connections = []\<rparr> catalog)
          station_list acc) = fst ` set acc \<union> fst ` set station_list"
  by (induction station_list arbitrary: acc) (auto simp: AList.dom_update split: prod.splits)

lemma keys_Station_build_catalog:
  "fst ` set (Station_build_catalog station_list) = fst ` set station_list"
  by (simp add: Station_build_catalog_def keys_Station_build_catalog_fold)

lemma append_connection_missing:
  "key \<notin> fst ` set catalog \<Longrightarrow> append_connection catalog key entry = Inl KeyError"
  by (simp add: append_connection_def map_of_eq_None_iff [THEN iffD2])

lemma append_connection_present:
  assumes "key \<in> fst ` set catalog"
  shows "\<exists>st. map_of catalog key = Some st \<and>
     append_connection catalog key entry =
       Inr (AList.update key (st\<lparr>connections := connections st @ [entry]\<rparr>) catalog)"
proof -
  from assms have "map_of catalog key \<noteq> None"
    by (simp add: map_of_eq_None_iff)
  then show ?thesis
    by (auto simp: append_connection_def)
qed

lemma append_connection_keys:
  assumes "append_connection catalog key entry = Inr catalog'"
  shows "fst ` set catalog' = fst ` set catalog \<and> key \<in> fst ` set catalog"
proof (cases "map_of catalog key")
  case None
  with assms show ?thesis by (simp add: append_connection_def)
next
  case (Some st)
  then have "key \<in> fst ` set catalog"
    by (metis map_of_SomeD fst_conv image_eqI)
  moreover from assms Some
  have "catalog' = AList.update key (st\<lparr>connections := connections st @ [entry]\<rparr>) catalog"
    by (simp add: append_connection_def)
  then have "fst ` set catalog' = {key} \<union> fst ` set catalog"
    by (simp only: AList.dom_update)
  ultimately show ?thesis by auto
qed

lemma append_connection_error:
  "append_connection catalog key entry = Inl e \<Longrightarrow> e = KeyError"
  by (auto simp: append_connection_def split: option.splits)

lemma append_connection_keeps:
  "has_connection catalog k c \<Longrightarrow> append_connection catalog key entry = Inr catalog' \<Longrightarrow>
     has_connection catalog' k c"
  by (auto simp: has_connection_def append_connection_def AList.update_conv'
           split: option.splits if_splits)

lemma append_connection_adds:
  "append_connection catalog key entry = Inr catalog' \<Longrightarrow> has_connection catalog' key entry"
  by (auto simp: has_connection_def append_connection_def AList.update_conv'
           split: option.splits)

lemma forward_loop_keeps:
  "has_connection catalog k c \<Longrightarrow> forward_loop es catalog = Inr catalog' \<Longrightarrow>
     has_connection catalog' k c"
  by (induction es arbitrary: catalog)
     (auto split: sum.splits dest: append_connection_keeps)

lemma inverse_loop_keeps:
  "has_connection catalog k c \<Longrightarrow> inverse_loop es catalog = Inr catalog' \<Longrightarrow>
     has_connection catalog' k c"
  by (induction es arbitrary: catalog)
     (auto split: sum.splits dest: append_connection_keeps)

lemma forward_loop_adds:
  "forward_loop es catalog = Inr catalog' \<Longrightarrow> e \<in> set es \<Longrightarrow>
     has_connection catalog' (fst e) (snd e)"
proof (induction es arbitrary: catalog)
  case Nil
  then show ?case by simp
next
  case (Cons x es)
  from Cons.prems(1) obtain c1 where
    step: "append_connection catalog (fst x) (snd x) = Inr c1" and
    rest: "forward_loop es c1 = Inr catalog'"
    by (auto split: sum.splits)
  show ?case
  proof (cases "e = x")
    case True
    from step have "has_connection c1 (fst x) (snd x)"
      by (rule append_connection_adds)
    with rest True show ?thesis
      by (auto dest: forward_loop_keeps)
  next
    case False
    with Cons.prems(2) have "e \<in> set es" by simp
    with rest show ?thesis by (rule Cons.IH)
  qed
qed

lemma inverse_loop_adds:
  "inverse_loop es catalog = Inr catalog' \<Longrightarrow> e \<in> set es \<Longrightarrow>
     has_connection catalog' (fst (snd e)) (inverse_of e)"
proof (induction es arbitrary: catalog)
  case Nil
  then show ?case by simp
next
  case (Cons x es)
  from Cons.prems(1) obtain c1 where
    step: "append_connection catalog (fst (snd x)) (inverse_of x) = Inr c1" and
    rest: "inverse_loop es c1 = Inr catalog'"
    by (auto split: sum.splits)
  show ?case
  proof (cases "e = x")
    case True
    from step have "has_connection c1 (fst (snd x)) (inverse_of x)"
      by (rule append_connection_adds)
    with rest True show ?thesis
      by (auto dest: inverse_loop_keeps)
  next
    case False
    with Cons.prems(2) have "e \<in> set es" by simp
    with rest show ?thesis by (rule Cons.IH)
  qed
qed

lemma inverse_of_opposite: "inverse_of (a, b, l, d) = (a, l, opposite d)"
  by (simp add: opposite_def)

lemma opposite_directions: "opposite ''N'' = ''S'' \<and> opposite ''S'' = ''N''"
  by (simp add: opposite_def)

lemma map_connections_forward_entry:
  assumes "map_connections stations_list connections_list = Inr catalog"
    and "(a, b, l, d) \<in> set connections_list"
  shows "has_connection catalog a (b, l, d)"
proof -
  from assms(1) obtain c1 where
    fwd: "forward_loop connections_list (Station_build_catalog stations_list) = Inr c1" and
    inv: "inverse_loop connections_list c1 = Inr catalog"
    by (auto simp: map_connections_def split: sum.splits)
  from forward_loop_adds [OF fwd assms(2)] have "has_connection c1 a (b, l, d)"
    by simp
  then show ?thesis
    using inv by (rule inverse_loop_keeps)
qed

lemma map_connections_inverse_entry:
  assumes "map_connections stations_list connections_list = Inr catalog"
    and "(a, b, l, d) \<in> set connections_list"
  shows "has_connection catalog b (a, l, opposite d)"
proof -
  from assms(1) obtain c1 where
    inv: "inverse_loop connections_list c1 = Inr catalog"
    by (auto simp: map_connections_def split: sum.splits)
  from inverse_loop_adds [OF inv assms(2)] show ?thesis
    by (simp only: inverse_of_opposite fst_conv snd_conv)
qed

text \<open>
  Claim C4 (connection symmetry after load). Whenever \<open>map_connections\<close> accepts a
  station list and a connection list, every connection record \<open>(a, b, l, d)\<close> of the
  input has its forward entry \<open>(b, l, d)\<close> in the connection list of \<open>a\<close> and its
  inverse entry \<open>(a, l, opposite d)\<close> in the connection list of \<open>b\<close>.
\<close>

theorem map_connections_symmetry:
  assumes "map_connections stations_list connections_list = Inr catalog"
    and "(a, b, l, d) \<in> set connections_list"
  shows "has_connection catalog a (b, l, d) \<and> has_connection catalog b (a, l, opposite d)"
proof -
  from assms have "has_connection catalog a (b, l, d)"
    by (rule map_connections_forward_entry)
  moreover from assms have "has_connection catalog b (a, l, opposite d)"
    by (rule map_connections_inverse_entry)
  ultimately show ?thesis ..
qed

theorem map_connections_symmetry_witness:
  "has_connection
     [(''A'', \<lparr>name = ''A'', delay_constant = 0, connections = [(''B'', ''L1'', ''N'')]\<rparr>),
      (''B'', \<lparr>name = ''B'', delay_constant = 0, connections = [(''A'', ''L1'', ''S'')]\<rparr>)]
     ''A'' (''B'', ''L1'', ''N'') \<and>
   has_connection
     [(''A'', \<lparr>name = ''A'', delay_constant = 0, connections = [(''B'', ''L1'', ''N'')]\<rparr>),
      (''B'', \<lparr>name = ''B'', delay_constant = 0, connections = [(''A'', ''L1'', ''S'')]\<rparr>)]
     ''B'' (''A'', ''L1'', opposite ''N'')"
proof -
  have load: "map_connections [(''A'', 0), (''B'', 0)] [(''A'', ''B'', ''L1'', ''N'')] =
    Inr [(''A'', \<lparr>name = ''A'', delay_constant = 0, connections = [(''B'', ''L1'', ''N'')]\<rparr>),
         (''B'', \<lparr>name = ''B'', delay_constant = 0, connections = [(''A'', ''L1'', ''S'')]\<rparr>)]"
    by (simp add: map_connections_def Station_build_catalog_def append_connection_def)
  have mem: "(''A'', ''B'', ''L1'', ''N'') \<in> set [(''A'', ''B'', ''L1'', ''N'')]"
    by simp
  from map_connections_symmetry [OF load mem] show ?thesis .
qed

lemma forward_loop_keys:
  "forward_loop es catalog = Inr catalog' \<Longrightarrow>
     fst ` set catalog' = fst ` set catalog \<and> (\<forall>e\<in>set es. fst e \<in> fst ` set catalog)"
proof (induction es arbitrary: catalog)
  case Nil
  then show ?case by simp
next
  case (Cons x es)
  from Cons.prems obtain c1 where
    step: "append_connection catalog (fst x) (snd x) = Inr c1" and
    rest: "forward_loop es c1 = Inr catalog'"
    by (auto split: sum.splits)
  from append_connection_keys [OF step] Cons.IH [OF rest] show ?case
    by simp
qed

lemma inverse_loop_keys:
  "inverse_loop es catalog = Inr catalog' \<Longrightarrow>
     fst ` set catalog' = fst ` set catalog \<and> (\<forall>e\<in>set es. fst (snd e) \<in> fst ` set catalog)"
proof (induction es arbitrary: catalog)
  case Nil
  then show ?case by simp
next
  case (Cons x es)
  from Cons.prems obtain c1 where
    step: "append_connection catalog (fst (snd x)) (inverse_of x) = Inr c1" and
    rest: "inverse_loop es c1 = Inr catalog'"
    by (auto split: sum.splits)
  from append_connection_keys [OF step] Cons.IH [OF rest] show ?case
    by simp
qed

lemma forward_loop_error: "forward_loop es catalog = Inl e \<Longrightarrow> e = KeyError"
  by (induction es arbitrary: catalog)
     (auto split: sum.splits dest: append_connection_error)

lemma inverse_loop_error: "inverse_loop es catalog = Inl e \<Longrightarrow> e = KeyError"
  by (induction es arbitrary: catalog)
     (auto split: sum.splits dest: append_connection_error)

lemma map_connections_keys:
  assumes "map_connections stations_list connections_list = Inr catalog"
  shows "fst ` set catalog = fst ` set stations_list"
    and "(a, b, l, d) \<in> set connections_list \<Longrightarrow>
           a \<in> fst ` set stations_list \<and> b \<in> fst ` set stations_list"
proof -
  from assms obtain c1 where
    fwd: "forward_loop connections_list (Station_build_catalog stations_list) = Inr c1" and
    inv: "inverse_loop connections_list c1 = Inr catalog"
    by (auto simp: map_connections_def split: sum.splits)
  from forward_loop_keys [OF fwd]
  have k1: "fst ` set c1 = fst ` set stations_list"
    and froms: "\<forall>e\<in>set connections_list. fst e \<in> fst ` set stations_list"
    by (simp_all add: keys_Station_build_catalog)
  from inverse_loop_keys [OF inv] k1
  have k2: "fst ` set catalog = fst ` set stations_list"
    and tos: "\<forall>e\<in>set connections_list. fst (snd e) \<in> fst ` set stations_list"
    by simp_all
  show "fst ` set catalog = fst ` set stations_list" by (rule k2)
  assume e: "(a, b, l, d) \<in> set connections_list"
  from froms e have "fst (a, b, l, d) \<in> fst ` set stations_list" by (rule bspec)
  moreover from tos e have "fst (snd (a, b, l, d)) \<in> fst ` set stations_list" by (rule bspec)
  ultimately show "a \<in> fst ` set stations_list \<and> b \<in> fst ` set stations_list" by simp
qed

text \<open>
  Claim C7 (load referential integrity). When some connection record names a from or to
  station that is not among the loaded stations, \<open>map_connections\<close> produces no catalog:
  it fails with the exception of the missing dictionary key, Python's KeyError (the
  error kind the specification calls ReferenceError).
\<close>

theorem map_connections_unknown_station:
  assumes "(a, b, l, d) \<in> set connections_list"
    and "a \<notin> fst ` set stations_list \<or> b \<notin> fst ` set stations_list"
  shows "map_connections stations_list connections_list = Inl KeyError"
proof (cases "map_connections stations_list connections_list")
  case (Inl e)
  then have "e = KeyError"
    by (auto simp: map_connections_def split: sum.splits
             dest: forward_loop_error inverse_loop_error)
  with Inl show ?thesis by simp
next
  case (Inr catalog)
  from map_connections_keys(2) [OF Inr assms(1)] assms(2) show ?thesis
    by simp
qed

theorem map_connections_unknown_station_witness:
  "map_connections [(''A'', 0), (''B'', 0)]
     [(''A'', ''B'', ''L1'', ''N''), (''B'', ''C'', ''L1'', ''N'')] = Inl KeyError"
proof -
  have mem: "(''B'', ''C'', ''L1'', ''N'') \<in>
      set [(''A'', ''B'', ''L1'', ''N''), (''B'', ''C'', ''L1'', ''N'')]"
    by simp
  have missing: "''B'' \<notin> fst ` set [(''A'', 0::real), (''B'', 0)] \<or>
      ''C'' \<notin> fst ` set [(''A'', 0::real), (''B'', 0)]"
    by simp
  from map_connections_unknown_station [OF mem missing] show ?thesis .
qed

subsection \<open>Where the connections of a loaded catalog come from\<close>

lemma Station_build_catalog_fold_no_connections:
  assumes "\<forall>key st. map_of acc key = Some st \<longrightarrow> connections st = []"
  shows "\<forall>key st. map_of (fold (\<lambda>(station, delay_constant) catalog.
             AList.update station
               \<lparr>name = station, delay_constant = delay_constant, connections = []\<rparr> catalog)
          station_list acc) key = Some st \<longrightarrow> connections st = []"
  using assms
proof (induction station_list arbitrary: acc)
  case Nil
  then show ?case by simp
next
  case (Cons x station_list)
  obtain station delay_constant where x: "x = (station, delay_constant)"
    by (cases x)
  let ?acc = "AList.update station
      \<lparr>name = station, delay_constant = delay_constant, connections = []\<rparr> acc"
  from Cons.prems have "\<forall>key st. map_of ?acc key = Some st \<longrightarrow> connections st = []"
    by (auto simp: AList.update_conv' split: if_splits)
  from Cons.IH [OF this] x show ?case by simp
qed

lemma Station_build_catalog_no_connections:
  "\<not> has_connection (Station_build_catalog station_list) a c"
  using Station_build_catalog_fold_no_connections [of "[]" station_list]
  by (auto simp: has_connection_def Station_build_catalog_def split: option.splits)

lemma append_connection_origin:
  assumes "append_connection catalog key entry = Inr catalog'"
    and "has_connection catalog' a c"
  shows "has_connection catalog a c \<or> (a = key \<and> c = entry)"
  using assms
  by (auto simp: append_connection_def has_connection_def AList.update_conv'
           split: option.splits if_splits)

lemma forward_loop_origin:
  "forward_loop es catalog = Inr catalog' \<Longrightarrow> has_connection catalog' a c \<Longrightarrow>
     has_connection catalog a c \<or> (\<exists>e\<in>set es. a = fst e \<and> c = snd e)"
proof (induction es arbitrary: catalog)
  case Nil
  then show ?case by simp
next
  case (Cons x es)
  from Cons.prems(1) obtain c1 where
    step: "append_connection catalog (fst x) (snd x) = Inr c1" and
    rest: "forward_loop es c1 = Inr catalog'"
    by (auto split: sum.splits)
  from Cons.IH [OF rest Cons.prems(2)]
  have "has_connection c1 a c \<or> (\<exists>e\<in>set es. a = fst e \<and> c = snd e)" .
  with append_connection_origin [OF step, of a c] show ?case by auto
qed

lemma inverse_loop_origin:
  "inverse_loop es catalog = Inr catalog' \<Longrightarrow> has_connection catalog' a c \<Longrightarrow>
     has_connection catalog a c \<or> (\<exists>e\<in>set es. a = fst (snd e) \<and> c = inverse_of e)"
proof (induction es arbitrary: catalog)
  case Nil
  then show ?case by simp
next
  case (Cons x es)
  from Cons.prems(1) obtain c1 where
    step: "append_connection catalog (fst (snd x)) (inverse_of x) = Inr c1" and
    rest: "inverse_loop es c1 = Inr catalog'"
    by (auto split: sum.splits)
  from Cons.IH [OF rest Cons.prems(2)]
  have "has_connection c1 a c \<or> (\<exists>e\<in>set es. a = fst (snd e) \<and> c = inverse_of e)" .
  with append_connection_origin [OF step, of a c] show ?case by auto
qed

lemma map_connections_origin:
  assumes "map_connections stations_list connections_list = Inr catalog"
    and "has_connection catalog a c"
  shows "(\<exists>b l d. (a, b, l, d) \<in> set connections_list \<and> c = (b, l, d)) \<or>
         (\<exists>b l d. (b, a, l, d) \<in> set connections_list \<and> c = (b, l, opposite d))"
proof -
  from assms(1) obtain c1 where
    fwd: "forward_loop connections_list (Station_build_catalog stations_list) = Inr c1" and
    inv: "inverse_loop connections_list c1 = Inr catalog"
    by (auto simp: map_connections_def split: sum.splits)
  from inverse_loop_origin [OF inv assms(2)]
  consider "has_connection c1 a c"
    | e where "e \<in> set connections_list" "a = fst (snd e)" "c = inverse_of e"
    by blast
  then show ?thesis
  proof cases
    case 1
    from forward_loop_origin [OF fwd 1] Station_build_catalog_no_connections
    obtain e where e: "e \<in> set connections_list" "a = fst e" "c = snd e"
      by blast
    obtain a' b l d where "e = (a', b, l, d)" by (cases e)
    with e show ?thesis by auto
  next
    case 2
    obtain b a' l d where e: "e = (b, a', l, d)" by (cases e)
    with 2 have "(b, a, l, d) \<in> set connections_list" "c = (b, l, opposite d)"
      by (simp_all only: inverse_of_opposite fst_conv snd_conv)
    then show ?thesis by blast
  qed
qed

lemma map_connections_targets:
  assumes "map_connections stations_list connections_list = Inr catalog"
    and "has_connection catalog a (b, l, d)"
  shows "b \<in> fst ` set catalog"
proof -
  from map_connections_origin [OF assms]
  consider b' l' d' where "(a, b', l', d') \<in> set connections_list" "(b, l, d) = (b', l', d')"
    | b' l' d' where "(b', a, l', d') \<in> set connections_list" "(b, l, d) = (b', l', opposite d')"
    by blast
  then have "b \<in> fst ` set stations_list"
  proof cases
    case 1
    with map_connections_keys(2) [OF assms(1), of a b' l' d'] show ?thesis by simp
  next
    case 2
    with map_connections_keys(2) [OF assms(1), of b' a l' d'] show ?thesis by simp
  qed
  with map_connections_keys(1) [OF assms(1)] show ?thesis by simp
qed

lemma map_connections_symmetric:
  assumes "map_connections stations_list connections_list = Inr catalog"
    and "has_connection catalog a (b, l, d)"
  shows "\<exists>d'. has_connection catalog b (a, l, d')"
proof -
  from map_connections_origin [OF assms]
  consider d' where "(a, b, l, d') \<in> set connections_list"
    | d' where "(b, a, l, d') \<in> set connections_list"
    by auto
  then show ?thesis
  proof cases
    case 1
    from map_connections_inverse_entry [OF assms(1) 1] show ?thesis by blast
  next
    case 2
    from map_connections_forward_entry [OF assms(1) 2] show ?thesis by blast
  qed
qed

lemma distinct_Station_build_catalog_fold:
  "distinct (map fst acc) \<Longrightarrow>
   distinct (map fst (fold (\<lambda>(station, delay_constant) catalog.
             AList.update station
               \<lparr>name = station, delay_constant = delay_constant, connections = []\<rparr> catalog)
          station_list acc))"
  by (induction station_list arbitrary: acc) (auto simp: AList.distinct_update split: prod.splits)

lemma append_connection_distinct:
  "append_connection catalog key entry = Inr catalog' \<Longrightarrow> distinct (map fst catalog) \<Longrightarrow>
     distinct (map fst catalog')"
  by (auto simp: append_connection_def AList.distinct_update split: option.splits)

lemma forward_loop_distinct:
  "forward_loop es catalog = Inr catalog' \<Longrightarrow> distinct (map fst catalog) \<Longrightarrow>
     distinct (map fst catalog')"
  by (induction es arbitrary: catalog)
     (auto split: sum.splits dest: append_connection_distinct)

lemma inverse_loop_distinct:
  "inverse_loop es catalog = Inr catalog' \<Longrightarrow> distinct (map fst catalog) \<Longrightarrow>
     distinct (map fst catalog')"
  by (induction es arbitrary: catalog)
     (auto split: sum.splits dest: append_connection_distinct)

lemma map_connections_distinct:
  assumes "map_connections stations_list connections_list = Inr catalog"
  shows "distinct (map fst catalog)"
proof -
  from assms obtain c1 where
    fwd: "forward_loop connections_list (Station_build_catalog stations_list) = Inr c1" and
    inv: "inverse_loop connections_list c1 = Inr catalog"
    by (auto simp: map_connections_def split: sum.splits)
  have "distinct (map fst (Station_build_catalog stations_list))"
    unfolding Station_build_catalog_def
    by (rule distinct_Station_build_catalog_fold) simp
  from inverse_loop_distinct [OF inv forward_loop_distinct [OF fwd this]] show ?thesis .
qed

lemma build_graph_keys: "fst ` set (build_graph station_catalog) = fst ` set station_catalog"
  by (force simp: build_graph_def)

lemma map_connections_graph_closed:
  assumes load: "map_connections stations_list connections_list = Inr catalog"
  shows "graph_closed (build_graph catalog)"
  unfolding graph_closed_def
proof (intro ballI, clarify)
  fix key conns target
  assume entry: "(key, conns) \<in> set (build_graph catalog)" and target: "target \<in> set conns"
  from entry obtain st where st: "(key, st) \<in> set catalog" "conns = map fst (connections st)"
    by (auto simp: build_graph_def)
  from target st(2) obtain l d where c: "(target, l, d) \<in> set (connections st)"
    by auto
  from map_connections_distinct [OF load] st(1) have "map_of catalog key = Some st"
    by simp
  with c have "has_connection catalog key (target, l, d)"
    by (simp add: has_connection_def)
  from map_connections_targets [OF load this] show "target \<in> fst ` set (build_graph catalog)"
    by (simp only: build_graph_keys)
qed

section \<open>Properties of Station.breadth_first_pathfind\<close>

lemma enqueue_neighbours_eq:
  "enqueue_neighbours search_path goal conns queue =
     (if goal \<in> set conns then Inl (search_path @ [goal])
      else Inr (queue @ map (\<lambda>neighbour. search_path @ [neighbour]) conns))"
  by (induction conns arbitrary: queue) (auto simp: Let_def)

lemma walk_nonempty: "walk graph p \<Longrightarrow> p \<noteq> []"
  by (cases p) simp_all

lemma walk_snoc:
  "p \<noteq> [] \<Longrightarrow> walk graph (p @ [v]) \<longleftrightarrow> walk graph p \<and> edge graph (last p) v"
  by (induction graph p rule: walk.induct) auto

lemma walk_unsnoc:
  assumes "walk graph w" and "2 \<le> length w"
  obtains w' where "w = w' @ [last w]" and "walk graph w'" and "hd w' = hd w"
    and "edge graph (last w') (last w)" and "Suc (length w') = length w"
proof -
  from assms(2) have ne: "w \<noteq> []" by auto
  then have eq: "w = butlast w @ [last w]" by simp
  from assms(2) have bne: "butlast w \<noteq> []"
    by (cases w) (auto split: if_splits)
  from assms(1) eq bne have "walk graph (butlast w) \<and> edge graph (last (butlast w)) (last w)"
    by (metis walk_snoc)
  moreover from bne eq have "hd (butlast w) = hd w"
    by (metis hd_append2)
  moreover from ne have "Suc (length (butlast w)) = length w" by simp
  ultimately show ?thesis using eq that by blast
qed

lemma edge_iff: "map_of graph u = Some conns \<Longrightarrow> edge graph u v \<longleftrightarrow> v \<in> set conns"
  by (simp add: edge_def)

lemma sorted_length_hd:
  "sorted (map length Q) \<Longrightarrow> p \<in> set Q \<Longrightarrow> length (hd Q) \<le> length p"
  by (cases Q) auto

lemma sorted_map_const: "\<forall>x\<in>set xs. f x = (c::nat) \<Longrightarrow> sorted (map f xs)"
  by (induction xs) auto

lemma bfs_inv_step:
  assumes inv: "bfs_inv graph start goal E (p # q)"
    and new_walks: "\<forall>p'\<in>set new. walk graph p' \<and> hd p' = start \<and> length p' = Suc (length p)"
    and new_cover: "last p \<in> E \<or> (\<forall>v. edge graph (last p) v \<longrightarrow> (\<exists>p'\<in>set new. last p' = v))"
    and no_goal: "last p \<in> E \<or> \<not> edge graph (last p) goal"
  shows "bfs_inv graph start goal (insert (last p) E) (q @ new)"
proof -
  let ?k = "length p"
  let ?E = "insert (last p) E"
  let ?Q = "q @ new"
  from inv have a: "\<forall>p'\<in>set (p # q). walk graph p' \<and> hd p' = start"
    unfolding bfs_inv_def by blast
  from inv have b1: "sorted (map length (p # q))"
    unfolding bfs_inv_def by blast
  from inv have b2: "\<forall>p'\<in>set (p # q). length p' \<le> Suc ?k"
    unfolding bfs_inv_def by simp
  from inv have st: "start \<in> E \<or> (\<exists>p'\<in>set (p # q). last p' = start)"
    unfolding bfs_inv_def by blast
  from inv have c: "\<forall>u\<in>E. \<forall>v. edge graph u v \<longrightarrow> v \<in> E \<or> (\<exists>p'\<in>set (p # q). last p' = v)"
    unfolding bfs_inv_def by blast
  from inv have tg: "\<forall>u\<in>E. \<not> edge graph u goal"
    unfolding bfs_inv_def by blast
  from inv have m: "\<forall>w. walk graph w \<and> hd w = start \<and> length w < ?k \<longrightarrow> last w \<in> E"
    unfolding bfs_inv_def by simp
  from inv have f: "\<forall>w. walk graph w \<and> hd w = start \<and> length w = ?k \<longrightarrow>
      last w \<in> E \<or> (\<exists>p'\<in>set (p # q). last p' = last w \<and> length p' = ?k)"
    unfolding bfs_inv_def by simp
  have lo: "\<forall>p'\<in>set ?Q. ?k \<le> length p'"
    using b1 new_walks by auto
  have hi: "\<forall>p'\<in>set ?Q. length p' \<le> Suc ?k"
    using b2 new_walks by auto
  have a': "\<forall>p'\<in>set ?Q. walk graph p' \<and> hd p' = start"
    using a new_walks by auto
  have "sorted (map length new)"
    using new_walks by (intro sorted_map_const [where c = "Suc ?k"]) simp
  moreover have "sorted (map length q)"
    using b1 by simp
  moreover have "\<forall>x\<in>set q. \<forall>y\<in>set new. length x \<le> length y"
    using b2 new_walks by simp
  ultimately have b1': "sorted (map length ?Q)"
    by (simp add: sorted_append)
  have hdk: "?k \<le> length (hd ?Q) \<and> length (hd ?Q) \<le> Suc ?k" if "?Q \<noteq> []"
    using that lo hi hd_in_set [of ?Q] by blast
  have b2': "\<forall>p'\<in>set ?Q. length p' \<le> Suc (length (hd ?Q))"
  proof
    fix p' assume p': "p' \<in> set ?Q"
    then have "?Q \<noteq> []" by auto
    from hdk [OF this] hi p' show "length p' \<le> Suc (length (hd ?Q))"
      by fastforce
  qed
  have st': "start \<in> ?E \<or> (\<exists>p'\<in>set ?Q. last p' = start)"
    using st by auto
  have c': "\<forall>u\<in>?E. \<forall>v. edge graph u v \<longrightarrow> v \<in> ?E \<or> (\<exists>p'\<in>set ?Q. last p' = v)"
  proof (intro ballI allI impI)
    fix u v assume u: "u \<in> ?E" and e: "edge graph u v"
    show "v \<in> ?E \<or> (\<exists>p'\<in>set ?Q. last p' = v)"
    proof (cases "u \<in> E")
      case True
      with c e have "v \<in> E \<or> (\<exists>p'\<in>set (p # q). last p' = v)" by blast
      then show ?thesis by auto
    next
      case False
      with u have "u = last p" by simp
      with False new_cover e have "\<exists>p'\<in>set new. last p' = v" by blast
      then show ?thesis by auto
    qed
  qed
  have tg': "\<forall>u\<in>?E. \<not> edge graph u goal"
    using tg no_goal by auto
  have m': "last w \<in> ?E"
    if ne: "?Q \<noteq> []" and w: "walk graph w" "hd w = start" "length w < length (hd ?Q)" for w
  proof -
    from hdk [OF ne] w(3) consider "length w < ?k" | "length w = ?k" "length (hd ?Q) = Suc ?k"
      by linarith
    then show ?thesis
    proof cases
      case 1
      with m w show ?thesis by blast
    next
      case 2
      from f w 2(1) have "last w \<in> E \<or> (\<exists>p'\<in>set (p # q). last p' = last w \<and> length p' = ?k)"
        by blast
      then show ?thesis
      proof
        assume "last w \<in> E" then show ?thesis by simp
      next
        assume "\<exists>p'\<in>set (p # q). last p' = last w \<and> length p' = ?k"
        then obtain p' where p': "p' \<in> set (p # q)" "last p' = last w" "length p' = ?k"
          by blast
        show ?thesis
        proof (cases "p' = p")
          case True
          with p'(2) show ?thesis by simp
        next
          case False
          with p'(1) have "p' \<in> set ?Q" by simp
          from sorted_length_hd [OF b1' this] p'(3) 2(2) show ?thesis by simp
        qed
      qed
    qed
  qed
  have f': "last w \<in> ?E \<or> (\<exists>p'\<in>set ?Q. last p' = last w \<and> length p' = length (hd ?Q))"
    if ne: "?Q \<noteq> []" and w: "walk graph w" "hd w = start" "length w = length (hd ?Q)" for w
  proof -
    from hdk [OF ne] consider "length (hd ?Q) = ?k" | "length (hd ?Q) = Suc ?k"
      by linarith
    then show ?thesis
    proof cases
      case 1
      with f w have "last w \<in> E \<or> (\<exists>p'\<in>set (p # q). last p' = last w \<and> length p' = ?k)"
        by simp
      then show ?thesis
      proof
        assume "last w \<in> E" then show ?thesis by simp
      next
        assume "\<exists>p'\<in>set (p # q). last p' = last w \<and> length p' = ?k"
        then obtain p' where p': "p' \<in> set (p # q)" "last p' = last w" "length p' = ?k"
          by blast
        show ?thesis
        proof (cases "p' = p")
          case True
          with p'(2) show ?thesis by simp
        next
          case False
          with p'(1) have "p' \<in> set ?Q" by simp
          with p'(2,3) 1 show ?thesis by auto
        qed
      qed
    next
      case 2
      from a have "p \<noteq> []" by (auto dest: walk_nonempty)
      with 2 w(3) have len: "2 \<le> length w"
        by (cases p) simp_all
      from walk_unsnoc [OF w(1) len] obtain w' where
        w': "w = w' @ [last w]" "walk graph w'" "hd w' = hd w"
          "edge graph (last w') (last w)" "Suc (length w') = length w"
        by blast
      from w' w 2 have "length w' < length (hd ?Q)" by simp
      with m' [OF ne w'(2)] w'(3) w(2) have "last w' \<in> ?E" by simp
      with c' w'(4) have "last w \<in> ?E \<or> (\<exists>p'\<in>set ?Q. last p' = last w)" by blast
      then show ?thesis
      proof
        assume "last w \<in> ?E" then show ?thesis by simp
      next
        assume "\<exists>p'\<in>set ?Q. last p' = last w"
        then obtain p' where p': "p' \<in> set ?Q" "last p' = last w" by blast
        from sorted_length_hd [OF b1' p'(1)] hi p'(1) 2 have "length p' = length (hd ?Q)"
          by fastforce
        with p' show ?thesis by blast
      qed
    qed
  qed
  show ?thesis
    unfolding bfs_inv_def
    using a' b1' b2' st' c' tg' m' f' by blast
qed

lemma bfs_inv_init: "bfs_inv graph start goal {} [ [start] ]"
proof -
  have one: "last w = start" if "walk graph w" "hd w = start" "length w = 1" for w
    using that by (cases w) auto
  have none: "\<not> (walk graph w \<and> length w < 1)" for w
    by (auto dest: walk_nonempty)
  show ?thesis
    unfolding bfs_inv_def using one none by simp
qed

lemma bfs_loop_Cons:
  "bfs_loop graph goal explored (search_path # queue) =
     (if search_path = [] then Inl IndexError
      else if last search_path \<in> set explored then bfs_loop graph goal explored queue
      else (case map_of graph (last search_path) of
              None \<Rightarrow> Inl KeyError
            | Some conns \<Rightarrow>
                if goal \<in> set conns then Inr (search_path @ [goal])
                else bfs_loop graph goal (explored @ [last search_path])
                       (queue @ map (\<lambda>neighbour. search_path @ [neighbour]) conns)))"
  by (simp add: enqueue_neighbours_eq split: option.splits)

declare bfs_loop.simps(2) [simp del]

lemma walk_stays_in_closed_set:
  assumes "walk graph w" and "hd w \<in> E"
    and "\<forall>u\<in>E. \<forall>v. edge graph u v \<longrightarrow> v \<in> E"
  shows "last w \<in> E"
  using assms by (induction graph w rule: walk.induct) auto

lemma bfs_inv_drained:
  assumes inv: "bfs_inv graph start goal E []"
    and w: "walk graph w" "hd w = start" "last w = goal" "2 \<le> length w"
  shows False
proof -
  from inv have s: "start \<in> E" and c: "\<forall>u\<in>E. \<forall>v. edge graph u v \<longrightarrow> v \<in> E"
    and tg: "\<forall>u\<in>E. \<not> edge graph u goal"
    unfolding bfs_inv_def by simp_all
  from walk_unsnoc [OF w(1) w(4)] obtain w' where
    w': "walk graph w'" "hd w' = hd w" "edge graph (last w') (last w)"
    by blast
  from walk_stays_in_closed_set [OF w'(1) _ c] w'(2) w(2) s have "last w' \<in> E" by simp
  with tg w'(3) w(3) show False by simp
qed

lemma bfs_inv_found:
  assumes inv: "bfs_inv graph start goal E (p # q)"
    and e: "edge graph (last p) goal"
    and w: "walk graph w" "hd w = start" "last w = goal" "2 \<le> length w"
  shows "length (p @ [goal]) \<le> length w"
proof (rule ccontr)
  assume "\<not> length (p @ [goal]) \<le> length w"
  then have short: "length w \<le> length p" by simp
  from inv have tg: "\<forall>u\<in>E. \<not> edge graph u goal"
    and m: "\<forall>w. walk graph w \<and> hd w = start \<and> length w < length p \<longrightarrow> last w \<in> E"
    unfolding bfs_inv_def by simp_all
  from walk_unsnoc [OF w(1) w(4)] obtain w' where
    w': "walk graph w'" "hd w' = hd w" "edge graph (last w') (last w)"
      "Suc (length w') = length w"
    by blast
  from w'(4) short have "length w' < length p" by simp
  with m w'(1,2) w(2) have "last w' \<in> E" by simp
  with tg w'(3) w(3) show False by simp
qed

lemma bfs_inv_found_walk:
  assumes inv: "bfs_inv graph start goal E (p # q)"
    and e: "edge graph (last p) goal"
  shows "walk graph (p @ [goal]) \<and> hd (p @ [goal]) = start"
proof -
  from inv have "walk graph p" "hd p = start"
    unfolding bfs_inv_def by simp_all
  moreover from this have "p \<noteq> []" by (auto dest: walk_nonempty)
  ultimately show ?thesis using e by (simp add: walk_snoc)
qed

lemma bfs_inv_skip:
  assumes "bfs_inv graph start goal E (p # q)" and "last p \<in> E"
  shows "bfs_inv graph start goal E q"
proof -
  from bfs_inv_step [OF assms(1), of "[]"] assms(2)
  have "bfs_inv graph start goal (insert (last p) E) (q @ [])" by simp
  with assms(2) show ?thesis by (simp add: insert_absorb)
qed

lemma bfs_inv_expand:
  assumes inv: "bfs_inv graph start goal E (p # q)"
    and known: "map_of graph (last p) = Some conns"
    and no_goal: "goal \<notin> set conns"
  shows "bfs_inv graph start goal (insert (last p) E)
           (q @ map (\<lambda>neighbour. p @ [neighbour]) conns)"
proof (rule bfs_inv_step [OF inv])
  from inv have p: "walk graph p" "hd p = start"
    unfolding bfs_inv_def by simp_all
  then have ne: "p \<noteq> []" by (auto dest: walk_nonempty)
  show "\<forall>p'\<in>set (map (\<lambda>neighbour. p @ [neighbour]) conns).
          walk graph p' \<and> hd p' = start \<and> length p' = Suc (length p)"
    using p ne known by (auto simp: walk_snoc edge_iff)
  show "last p \<in> E \<or>
        (\<forall>v. edge graph (last p) v \<longrightarrow>
             (\<exists>p'\<in>set (map (\<lambda>neighbour. p @ [neighbour]) conns). last p' = v))"
    using known by (auto simp: edge_iff)
  show "last p \<in> E \<or> \<not> edge graph (last p) goal"
    using known no_goal by (simp add: edge_iff)
qed


lemma graph_closed_conns:
  assumes "graph_closed graph" and "map_of graph u = Some conns"
  shows "set conns \<subseteq> fst ` set graph"
proof -
  from assms(2) have "(u, conns) \<in> set graph" by (rule map_of_SomeD)
  with assms(1) show ?thesis unfolding graph_closed_def by blast
qed

lemma bfs_loop_correct:
  assumes "bfs_inv graph start goal (set explored) queue"
    and "graph_closed graph"
    and "\<forall>p\<in>set queue. last p \<in> fst ` set graph"
  shows "\<exists>r. bfs_loop graph goal explored queue = Inr r \<and> bfs_result graph start goal r"
  using assms
proof (induction graph goal explored queue rule: bfs_loop.induct)
  case (1 graph goal explored)
  have "length w < 2" if w: "walk_between graph start goal w" for w
  proof (rule ccontr)
    assume "\<not> length w < 2"
    then have "2 \<le> length w" by simp
    with w bfs_inv_drained [OF "1.prems"(1), of w] show False
      by (simp add: walk_between_def)
  qed
  then show ?case by (simp add: bfs_result_def)
next
  case (2 graph goal explored search_path queue)
  note inv = "2.prems"(1) and closed = "2.prems"(2) and keys = "2.prems"(3)
  from inv have sp: "walk graph search_path" "hd search_path = start"
    unfolding bfs_inv_def by simp_all
  then have ne: "search_path \<noteq> []" by (auto dest: walk_nonempty)
  show ?case
  proof (cases "last search_path \<in> set explored")
    case True
    from bfs_inv_skip [OF inv True] have "bfs_inv graph start goal (set explored) queue" .
    moreover from keys have "\<forall>p\<in>set queue. last p \<in> fst ` set graph" by simp
    ultimately have "\<exists>r. bfs_loop graph goal explored queue = Inr r \<and> bfs_result graph start goal r"
      using "2.IH"(1) ne True closed by blast
    with ne True show ?thesis by (simp only: bfs_loop_Cons if_True if_False)
  next
    case False
    from keys have "last search_path \<in> fst ` set graph" by simp
    then obtain conns where known: "map_of graph (last search_path) = Some conns"
      by (metis map_of_eq_None_iff not_Some_eq)
    show ?thesis
    proof (cases "goal \<in> set conns")
      case True
      then have e: "edge graph (last search_path) goal"
        using known by (simp add: edge_iff)
      have res: "bfs_loop graph goal explored (search_path # queue) = Inr (search_path @ [goal])"
        using ne False known True by (simp add: bfs_loop_Cons)
      from bfs_inv_found_walk [OF inv e]
      have "walk_between graph start goal (search_path @ [goal])"
        by (simp add: walk_between_def)
      moreover have "2 \<le> length (search_path @ [goal])"
        using ne by (cases search_path) simp_all
      moreover have "\<forall>w. walk_between graph start goal w \<and> 2 \<le> length w \<longrightarrow>
          length (search_path @ [goal]) \<le> length w"
        using bfs_inv_found [OF inv e] unfolding walk_between_def by blast
      ultimately have "bfs_result graph start goal (search_path @ [goal])"
        by (simp add: bfs_result_def)
      with res show ?thesis by blast
    next
      case no_goal: False
      let ?queue' = "queue @ map (\<lambda>neighbour. search_path @ [neighbour]) conns"
      have enq: "enqueue_neighbours search_path goal conns queue = Inr ?queue'"
        using no_goal by (simp add: enqueue_neighbours_eq)
      from bfs_inv_expand [OF inv known no_goal]
      have inv': "bfs_inv graph start goal (set (explored @ [last search_path])) ?queue'"
        by simp
      from graph_closed_conns [OF closed known] keys
      have keys': "\<forall>p\<in>set ?queue'. last p \<in> fst ` set graph"
        by auto
      from "2.IH"(2) [OF ne False known enq inv' closed keys']
      have "\<exists>r. bfs_loop graph goal (explored @ [last search_path]) ?queue' = Inr r \<and>
          bfs_result graph start goal r" .
      moreover have "bfs_loop graph goal explored (search_path # queue) =
          bfs_loop graph goal (explored @ [last search_path]) ?queue'"
        using ne False known no_goal by (simp add: bfs_loop_Cons)
      ultimately show ?thesis by simp
    qed
  qed
qed

lemma breadth_first_pathfind_correct:
  assumes "graph_closed graph" and "start \<in> fst ` set graph"
  shows "\<exists>r. breadth_first_pathfind graph start goal = Inr r \<and> bfs_result graph start goal r"
  unfolding breadth_first_pathfind_def
  using bfs_loop_correct [of graph start goal "[]" "[ [start] ]"] bfs_inv_init assms
  by simp

text \<open>The graph of a loaded catalog is a connection graph, so the search returns on it.\<close>

lemma pathfinder_returns_on_loaded_network:
  assumes "map_connections stations_list connections_list = Inr catalog"
    and "start \<in> fst ` set stations_list"
  shows "\<exists>r. breadth_first_pathfind (build_graph catalog) start goal = Inr r \<and>
           bfs_result (build_graph catalog) start goal r"
proof (rule breadth_first_pathfind_correct)
  show "graph_closed (build_graph catalog)"
    using assms(1) by (rule map_connections_graph_closed)
  from map_connections_keys(1) [OF assms(1)] assms(2)
  show "start \<in> fst ` set (build_graph catalog)"
    by (simp only: build_graph_keys)
qed

text \<open>
  The closedness assumption is needed: on a dictionary that lists a neighbour it has no
  key for, which \<open>build_graph\<close> of a loaded catalog never is, looking that neighbour up
  raises KeyError.
\<close>

lemma breadth_first_pathfind_dangling_neighbour:
  "breadth_first_pathfind [(''A'', [''B''])] ''A'' ''C'' = Inl KeyError"
  by (simp add: breadth_first_pathfind_def bfs_loop_Cons)

text \<open>Soundness needs no assumption on the graph.\<close>

lemma bfs_loop_sound:
  assumes "\<forall>p\<in>set queue. walk graph p \<and> hd p = start"
    and "bfs_loop graph goal explored queue = Inr r" and "r \<noteq> []"
  shows "walk_between graph start goal r \<and> 2 \<le> length r"
  using assms
proof (induction graph goal explored queue rule: bfs_loop.induct)
  case (1 graph goal explored)
  then show ?case by simp
next
  case (2 graph goal explored search_path queue)
  from "2.prems"(1) have sp: "walk graph search_path" "hd search_path = start"
    by simp_all
  then have ne: "search_path \<noteq> []" by (auto dest: walk_nonempty)
  show ?case
  proof (cases "last search_path \<in> set explored")
    case True
    with ne "2.prems"(2) have "bfs_loop graph goal explored queue = Inr r"
      by (simp only: bfs_loop_Cons if_True if_False)
    with "2.IH"(1) [OF ne True] "2.prems" show ?thesis by simp
  next
    case False
    with ne "2.prems"(2) obtain conns where known: "map_of graph (last search_path) = Some conns"
      by (cases "map_of graph (last search_path)") (simp_all add: bfs_loop_Cons)
    show ?thesis
    proof (cases "goal \<in> set conns")
      case True
      with ne False known "2.prems"(2) have "r = search_path @ [goal]"
        by (simp add: bfs_loop_Cons)
      moreover have "edge graph (last search_path) goal"
        using True known by (simp add: edge_iff)
      moreover have "2 \<le> length (search_path @ [goal])"
        using ne by (cases search_path) simp_all
      ultimately show ?thesis
        using sp ne by (simp add: walk_between_def walk_snoc)
    next
      case no_goal: False
      let ?queue' = "queue @ map (\<lambda>neighbour. search_path @ [neighbour]) conns"
      have enq: "enqueue_neighbours search_path goal conns queue = Inr ?queue'"
        using no_goal by (simp add: enqueue_neighbours_eq)
      have walks: "\<forall>p\<in>set ?queue'. walk graph p \<and> hd p = start"
        using "2.prems"(1) sp ne known by (auto simp: walk_snoc edge_iff)
      have "bfs_loop graph goal (explored @ [last search_path]) ?queue' = Inr r"
        using ne False known no_goal "2.prems"(2) by (simp add: bfs_loop_Cons)
      from "2.IH"(2) [OF ne False known enq walks this "2.prems"(3)] show ?thesis .
    qed
  qed
qed

lemma breadth_first_pathfind_sound:
  assumes "breadth_first_pathfind graph start goal = Inr r" and "r \<noteq> []"
  shows "walk_between graph start goal r \<and> 2 \<le> length r"
  using bfs_loop_sound [of "[ [start] ]" graph start goal "[]" r] assms
  by (simp add: breadth_first_pathfind_def)

lemma hops_walk: "hops graph start goal n \<longleftrightarrow>
    (\<exists>w. walk_between graph start goal w \<and> length w = Suc n)"
  by (simp add: hops_def)

lemma hops_zero_iff: "hops graph start goal 0 \<longleftrightarrow> start = goal"
proof
  assume "hops graph start goal 0"
  then obtain w where "walk_between graph start goal w" "length w = 1"
    by (auto simp: hops_def)
  then show "start = goal"
    by (cases w) (auto simp: walk_between_def)
next
  assume "start = goal"
  then have "walk_between graph start goal [start]"
    by (simp add: walk_between_def)
  then show "hops graph start goal 0"
    unfolding hops_def by (intro exI [of _ "[start]"]) simp
qed

lemma walk_iff_consecutive_edges:
  "walk graph p \<longleftrightarrow> p \<noteq> [] \<and> (\<forall>i. Suc i < length p \<longrightarrow> edge graph (p ! i) (p ! Suc i))"
proof (induction graph p rule: walk.induct)
  case (1 graph)
  then show ?case by simp
next
  case (2 graph u)
  then show ?case by simp
next
  case (3 graph u v rest)
  have "(\<forall>i. Suc i < length (u # v # rest) \<longrightarrow>
           edge graph ((u # v # rest) ! i) ((u # v # rest) ! Suc i)) \<longleftrightarrow>
        edge graph u v \<and>
        (\<forall>i. Suc i < length (v # rest) \<longrightarrow> edge graph ((v # rest) ! i) ((v # rest) ! Suc i))"
    (is "?L \<longleftrightarrow> ?e \<and> ?R")
  proof
    assume l: ?L
    from l [rule_format, of 0] have ?e by simp
    moreover have ?R
    proof (intro allI impI)
      fix i assume "Suc i < length (v # rest)"
      with l [rule_format, of "Suc i"] show "edge graph ((v # rest) ! i) ((v # rest) ! Suc i)"
        by simp
    qed
    ultimately show "?e \<and> ?R" ..
  next
    assume r: "?e \<and> ?R"
    show ?L
    proof (intro allI impI)
      fix i assume i: "Suc i < length (u # v # rest)"
      show "edge graph ((u # v # rest) ! i) ((u # v # rest) ! Suc i)"
      proof (cases i)
        case 0
        with r show ?thesis by simp
      next
        case (Suc j)
        with i r show ?thesis by simp
      qed
    qed
  qed
  with 3 show ?case by simp
qed

lemma bfs_result_nonempty:
  assumes "bfs_result graph start goal r" and "1 \<le> n" and "hops graph start goal n"
  shows "r \<noteq> []"
proof
  assume "r = []"
  with assms(1) have "\<forall>w. walk_between graph start goal w \<longrightarrow> length w < 2"
    by (simp add: bfs_result_def)
  with assms(2,3) show False
    by (auto simp: hops_def)
qed

lemma bfs_result_min_hops1:
  assumes "bfs_result graph start goal r" and "r \<noteq> []"
  shows "length r - 1 = min_hops1 graph start goal"
proof -
  from assms have r: "walk_between graph start goal r" "2 \<le> length r"
    and least: "\<forall>w. walk_between graph start goal w \<and> 2 \<le> length w \<longrightarrow> length r \<le> length w"
    by (simp_all add: bfs_result_def)
  have "(LEAST n. 1 \<le> n \<and> hops graph start goal n) = length r - 1"
  proof (rule Least_equality)
    from r(2) have "length r = Suc (length r - 1)" by simp
    with r(1) have "hops graph start goal (length r - 1)"
      unfolding hops_def by blast
    with r(2) show "1 \<le> length r - 1 \<and> hops graph start goal (length r - 1)" by simp
  next
    fix y assume y: "1 \<le> y \<and> hops graph start goal y"
    then obtain w where "walk_between graph start goal w" "length w = Suc y"
      by (auto simp: hops_def)
    with least y have "length r \<le> Suc y" by auto
    then show "length r - 1 \<le> y" by simp
  qed
  then show ?thesis by (simp add: min_hops1_def)
qed

lemma min_hops1_eq_min_hops:
  assumes "start \<noteq> goal"
  shows "min_hops1 graph start goal = min_hops graph start goal"
proof -
  have "(1 \<le> n \<and> hops graph start goal n) = hops graph start goal n" for n
    using assms hops_zero_iff [of graph start goal] by (cases n) auto
  then show ?thesis by (simp add: min_hops1_def min_hops_def)
qed

text \<open>
  Claim C1 (BFS minimality), as amended. For a connection graph (closed under its own
  connection targets) and a start station of the graph, whenever \<open>goal\<close> is reachable
  from \<open>start\<close> by a walk of at least one hop, \<open>breadth_first_pathfind\<close> returns a
  walk from \<open>start\<close> to \<open>goal\<close> whose length minus one is the minimum hop count
  among the walks of at least one hop; when \<open>start\<close> and \<open>goal\<close> differ this is the
  true minimum hop count.
\<close>

theorem breadth_first_pathfind_minimal:
  assumes "graph_closed graph" and "start \<in> fst ` set graph"
    and "1 \<le> n" and "hops graph start goal n"
  shows "\<exists>p. breadth_first_pathfind graph start goal = Inr p \<and>
           walk_between graph start goal p \<and>
           length p - 1 = min_hops1 graph start goal \<and>
           (start \<noteq> goal \<longrightarrow> length p - 1 = min_hops graph start goal)"
proof -
  from breadth_first_pathfind_correct [OF assms(1,2)] obtain r where
    r: "breadth_first_pathfind graph start goal = Inr r" "bfs_result graph start goal r"
    by blast
  from bfs_result_nonempty [OF r(2) assms(3,4)] have ne: "r \<noteq> []" .
  with r(2) have "walk_between graph start goal r"
    by (simp add: bfs_result_def)
  moreover note bfs_result_min_hops1 [OF r(2) ne]
  ultimately show ?thesis
    using r(1) by (simp add: min_hops1_eq_min_hops)
qed

text \<open>
  The claim as stated fails when \<open>start = goal\<close>: the station reaches itself in zero
  hops, but the search returns the cycle through B, of two hops.
\<close>

theorem breadth_first_pathfind_minimal_counterexample:
  "breadth_first_pathfind [(''A'', [''B'']), (''B'', [''A''])] ''A'' ''A''
     = Inr [''A'', ''B'', ''A''] \<and>
   hops [(''A'', [''B'']), (''B'', [''A''])] ''A'' ''A'' 0 \<and>
   length [''A'', ''B'', ''A''] - 1 \<noteq> min_hops [(''A'', [''B'']), (''B'', [''A''])] ''A'' ''A''"
proof -
  have "breadth_first_pathfind [(''A'', [''B'']), (''B'', [''A''])] ''A'' ''A''
     = Inr [''A'', ''B'', ''A'']"
    by (simp add: breadth_first_pathfind_def bfs_loop_Cons)
  moreover have h: "hops [(''A'', [''B'']), (''B'', [''A''])] ''A'' ''A'' 0"
    by (simp add: hops_zero_iff)
  moreover from h have "min_hops [(''A'', [''B'']), (''B'', [''A''])] ''A'' ''A'' = 0"
    unfolding min_hops_def by (intro Least_eq_0)
  ultimately show ?thesis by simp
qed

theorem breadth_first_pathfind_minimal_witness:
  "breadth_first_pathfind
     [(''A'', [''B'', ''C'']), (''B'', [''A'', ''D'']), (''C'', [''A'']), (''D'', [''B''])]
     ''A'' ''D'' = Inr [''A'', ''B'', ''D''] \<and>
   min_hops
     [(''A'', [''B'', ''C'']), (''B'', [''A'', ''D'']), (''C'', [''A'']), (''D'', [''B''])]
     ''A'' ''D'' = 2"
proof -
  let ?g = "[(''A'', [''B'', ''C'']), (''B'', [''A'', ''D'']), (''C'', [''A'']), (''D'', [''B''])]"
  have closed: "graph_closed ?g"
    by (simp add: graph_closed_def)
  have key: "''A'' \<in> fst ` set ?g"
    by simp
  have "walk_between ?g ''A'' ''D'' [''A'', ''B'', ''D'']"
    by (simp add: walk_between_def edge_def)
  then have reach: "hops ?g ''A'' ''D'' 2"
    unfolding hops_def by (intro exI [of _ "[''A'', ''B'', ''D'']"]) simp
  have run: "breadth_first_pathfind ?g ''A'' ''D'' = Inr [''A'', ''B'', ''D'']"
    by (simp add: breadth_first_pathfind_def bfs_loop_Cons)
  from breadth_first_pathfind_minimal [OF closed key _ reach] run show ?thesis
    by simp
qed

lemma bfs_result_empty_iff:
  assumes "bfs_result graph start goal r"
  shows "r = [] \<longleftrightarrow> \<not> (\<exists>n\<ge>1. hops graph start goal n)"
proof
  assume "r = []"
  with assms have "\<forall>w. walk_between graph start goal w \<longrightarrow> length w < 2"
    by (simp add: bfs_result_def)
  then show "\<not> (\<exists>n\<ge>1. hops graph start goal n)"
    by (auto simp: hops_def)
next
  assume none: "\<not> (\<exists>n\<ge>1. hops graph start goal n)"
  show "r = []"
  proof (rule ccontr)
    assume "r \<noteq> []"
    with assms have r: "walk_between graph start goal r" "2 \<le> length r"
      by (simp_all add: bfs_result_def)
    from r(2) have "length r = Suc (length r - 1)" "1 \<le> length r - 1" by simp_all
    with r(1) have "\<exists>n\<ge>1. hops graph start goal n"
      unfolding hops_def by blast
    with none show False ..
  qed
qed

lemma no_hops_from_isolated:
  assumes "map_of graph start = Some []" and "1 \<le> n"
  shows "\<not> hops graph start goal n"
proof
  assume "hops graph start goal n"
  then obtain w where w: "walk graph w" "hd w = start" "length w = Suc n"
    by (auto simp: hops_def walk_between_def)
  with assms(2) obtain v rest where "w = start # v # rest"
    by (cases w; cases "tl w") auto
  with w(1) have "edge graph start v" by simp
  with assms(1) show False by (simp add: edge_def)
qed

lemma breadth_first_pathfind_isolated_start:
  assumes "map_of graph start = Some []"
  shows "breadth_first_pathfind graph start goal = Inr []"
  using assms by (simp add: breadth_first_pathfind_def bfs_loop_Cons)

text \<open>
  Claim C8 (pathfinder emptiness), as amended. For a connection graph and a start
  station that is a key of the graph, \<open>breadth_first_pathfind\<close> returns the empty list
  when \<open>goal\<close> is unreachable from \<open>start\<close>; and on every dictionary in which
  \<open>start\<close> has no outgoing connection the queue drains and the result is empty.
\<close>

theorem breadth_first_pathfind_unreachable:
  "(graph_closed graph \<and> start \<in> fst ` set graph \<and> unreachable graph start goal \<longrightarrow>
      breadth_first_pathfind graph start goal = Inr []) \<and>
   (map_of graph start = Some [] \<longrightarrow>
      breadth_first_pathfind graph start goal = Inr [])"
proof (intro conjI impI)
  assume "graph_closed graph \<and> start \<in> fst ` set graph \<and> unreachable graph start goal"
  then have closed: "graph_closed graph" and key: "start \<in> fst ` set graph"
    and none: "\<not> (\<exists>n. hops graph start goal n)"
    by (simp_all add: unreachable_def)
  from breadth_first_pathfind_correct [OF closed key] obtain r where
    r: "breadth_first_pathfind graph start goal = Inr r" "bfs_result graph start goal r"
    by blast
  from none have "\<not> (\<exists>n\<ge>1. hops graph start goal n)" by blast
  with bfs_result_empty_iff [OF r(2)] have "r = []" by simp
  with r(1) show "breadth_first_pathfind graph start goal = Inr []" by simp
next
  assume "map_of graph start = Some []"
  then show "breadth_first_pathfind graph start goal = Inr []"
    by (rule breadth_first_pathfind_isolated_start)
qed

text \<open>
  The claim as stated fails for a start that is not a station of the graph: the goal is
  unreachable, but the lookup \<open>graph[start]\<close> raises KeyError (which the caller,
  \<open>submenu_3\<close>, catches as an invalid station name) and no list is returned.
\<close>

theorem breadth_first_pathfind_unreachable_counterexample:
  "graph_closed [(''A'', [''B'']), (''B'', [''A''])] \<and>
   unreachable [(''A'', [''B'']), (''B'', [''A''])] ''Z'' ''A'' \<and>
   breadth_first_pathfind [(''A'', [''B'']), (''B'', [''A''])] ''Z'' ''A'' = Inl KeyError"
proof -
  let ?g = "[(''A'', [''B'']), (''B'', [''A''])]"
  have closed: "graph_closed ?g"
    by (simp add: graph_closed_def)
  have "\<not> hops ?g ''Z'' ''A'' n" for n
  proof
    assume "hops ?g ''Z'' ''A'' n"
    then obtain w where w: "walk ?g w" "hd w = ''Z''" "last w = ''A''"
      by (auto simp: hops_def walk_between_def)
    have no_edge: "\<forall>u\<in>{''Z''}. \<forall>v. edge ?g u v \<longrightarrow> v \<in> {''Z''}"
      by (simp add: edge_def)
    from walk_stays_in_closed_set [OF w(1) _ no_edge] w(2) have "last w \<in> {''Z''}"
      by simp
    with w(3) show False by simp
  qed
  then have "unreachable ?g ''Z'' ''A''"
    by (simp add: unreachable_def)
  moreover have "breadth_first_pathfind ?g ''Z'' ''A'' = Inl KeyError"
    by (simp add: breadth_first_pathfind_def bfs_loop_Cons)
  ultimately show ?thesis using closed by simp
qed

theorem breadth_first_pathfind_unreachable_witness:
  "breadth_first_pathfind [(''A'', [''B'']), (''B'', [''A'']), (''C'', [''A''])] ''A'' ''C''
     = Inr [] \<and>
   breadth_first_pathfind [(''A'', []), (''B'', [''X''])] ''A'' ''B'' = Inr []"
proof -
  let ?g = "[(''A'', [''B'']), (''B'', [''A'']), (''C'', [''A''])]"
  let ?h = "[(''A'', []), (''B'', [''X''])]"
  have closed: "graph_closed ?g"
    by (simp add: graph_closed_def)
  have key: "''A'' \<in> fst ` set ?g"
    by simp
  have "\<not> hops ?g ''A'' ''C'' n" for n
  proof
    assume "hops ?g ''A'' ''C'' n"
    then obtain w where w: "walk ?g w" "hd w = ''A''" "last w = ''C''"
      by (auto simp: hops_def walk_between_def)
    have stays: "\<forall>u\<in>{''A'', ''B''}. \<forall>v. edge ?g u v \<longrightarrow> v \<in> {''A'', ''B''}"
      by (simp add: edge_def)
    from walk_stays_in_closed_set [OF w(1) _ stays] w(2) have "last w \<in> {''A'', ''B''}"
      by simp
    with w(3) show False by simp
  qed
  then have none: "unreachable ?g ''A'' ''C''"
    by (simp add: unreachable_def)
  have isolated: "map_of ?h ''A'' = Some []"
    by simp
  note inst = breadth_first_pathfind_unreachable [of ?g "''A''" "''C''"]
  from inst closed key none
  have first: "breadth_first_pathfind ?g ''A'' ''C'' = Inr []"
    by blast
  from breadth_first_pathfind_unreachable [of ?h "''A''" "''B''"] isolated
  have "breadth_first_pathfind ?h ''A'' ''B'' = Inr []"
    by blast
  with first show ?thesis ..
qed

text \<open>
  Claim C10 (start equals goal). \<open>breadth_first_pathfind graph s s\<close> never returns the
  one-station path \<open>[s]\<close>: a non-empty result has at least two stations, begins and
  ends at \<open>s\<close> and steps along edges of the graph. On a connection graph that has
  \<open>s\<close> the call returns, and the result is empty exactly when no walk of at least one
  hop leads from \<open>s\<close> back to \<open>s\<close>.
\<close>

theorem breadth_first_pathfind_start_is_goal:
  "(\<forall>p. breadth_first_pathfind graph s s = Inr p \<longrightarrow>
        p \<noteq> [s] \<and>
        (p \<noteq> [] \<longrightarrow> 2 \<le> length p \<and> hd p = s \<and> last p = s \<and>
           (\<forall>i. Suc i < length p \<longrightarrow> edge graph (p ! i) (p ! Suc i)))) \<and>
   (graph_closed graph \<and> s \<in> fst ` set graph \<longrightarrow>
      (\<exists>p. breadth_first_pathfind graph s s = Inr p \<and>
           (p = [] \<longleftrightarrow> \<not> (\<exists>n\<ge>1. hops graph s s n))))"
proof (intro conjI allI impI)
  fix p assume run: "breadth_first_pathfind graph s s = Inr p"
  have sound: "walk_between graph s s p \<and> 2 \<le> length p" if "p \<noteq> []"
    using breadth_first_pathfind_sound [OF run that] .
  then show "p \<noteq> [s]" by auto
  assume "p \<noteq> []"
  from sound [OF this] show "2 \<le> length p" "hd p = s" "last p = s"
    by (simp_all add: walk_between_def)
  fix i assume "Suc i < length p"
  with sound [OF \<open>p \<noteq> []\<close>] show "edge graph (p ! i) (p ! Suc i)"
    by (simp add: walk_between_def walk_iff_consecutive_edges)
next
  assume "graph_closed graph \<and> s \<in> fst ` set graph"
  then have "graph_closed graph" "s \<in> fst ` set graph" by simp_all
  from breadth_first_pathfind_correct [OF this] obtain r where
    "breadth_first_pathfind graph s s = Inr r" "bfs_result graph s s r"
    by blast
  with bfs_result_empty_iff [of graph s s r]
  show "\<exists>p. breadth_first_pathfind graph s s = Inr p \<and>
           (p = [] \<longleftrightarrow> \<not> (\<exists>n\<ge>1. hops graph s s n))"
    by blast
qed

theorem breadth_first_pathfind_start_is_goal_witness:
  "breadth_first_pathfind [(''A'', [''B'']), (''B'', [''C'']), (''C'', [''A''])] ''A'' ''A''
     = Inr [''A'', ''B'', ''C'', ''A''] \<and>
   [''A'', ''B'', ''C'', ''A''] \<noteq> [''A''] \<and>
   edge [(''A'', [''B'']), (''B'', [''C'']), (''C'', [''A''])] ''A'' ''B'' \<and>
   edge [(''A'', [''B'']), (''B'', [''C'']), (''C'', [''A''])] ''B'' ''C'' \<and>
   edge [(''A'', [''B'']), (''B'', [''C'']), (''C'', [''A''])] ''C'' ''A'' \<and>
   hops [(''A'', [''B'']), (''B'', [''C'']), (''C'', [''A''])] ''A'' ''A'' 3"
proof -
  let ?g = "[(''A'', [''B'']), (''B'', [''C'']), (''C'', [''A''])]"
  let ?p = "[''A'', ''B'', ''C'', ''A'']"
  have closed: "graph_closed ?g \<and> ''A'' \<in> fst ` set ?g"
    by (simp add: graph_closed_def)
  have run: "breadth_first_pathfind ?g ''A'' ''A'' = Inr ?p"
    by (simp add: breadth_first_pathfind_def bfs_loop_Cons)
  note inst = breadth_first_pathfind_start_is_goal [of ?g "''A''"]
  from inst run have
    first: "?p \<noteq> [''A''] \<and> 2 \<le> length ?p \<and> hd ?p = ''A'' \<and> last ?p = ''A'' \<and>
      (\<forall>i. Suc i < length ?p \<longrightarrow> edge ?g (?p ! i) (?p ! Suc i))"
    by blast
  then have edges: "\<forall>i. Suc i < length ?p \<longrightarrow> edge ?g (?p ! i) (?p ! Suc i)"
    by blast
  from edges [rule_format, of 0] have e0: "edge ?g ''A'' ''B''" by simp
  from edges [rule_format, of 1] have e1: "edge ?g ''B'' ''C''" by simp
  from edges [rule_format, of 2] have e2: "edge ?g ''C'' ''A''" by simp
  from inst closed run have "\<exists>n\<ge>1. hops ?g ''A'' ''A'' n"
    by auto
  have "walk_between ?g ''A'' ''A'' ?p"
    using e0 e1 e2 by (simp add: walk_between_def)
  then have "hops ?g ''A'' ''A'' 3"
    unfolding hops_def by (intro exI [of _ ?p]) simp
  with run first e0 e1 e2 show ?thesis by blast
qed

section \<open>Properties of Train.move\<close>

lemma move_scan_False:
  "move_scan self conns = (False, self') \<Longrightarrow>
     self' = self \<and>
     (\<forall>c\<in>set conns. \<not> (in_connection (line self) c \<and> in_connection (course self) c))"
  by (induction conns) (auto split: if_splits)

lemma move_scan_True:
  "move_scan self conns = (True, self') \<Longrightarrow>
     \<exists>c\<in>set conns. in_connection (line self) c \<and> in_connection (course self) c \<and>
        self' = self\<lparr>station := fst c\<rparr>"
  by (induction conns) (auto split: if_splits)

lemma move_scan_exact:
  assumes "\<forall>c\<in>set conns.
      (in_connection (line self) c \<and> in_connection (course self) c) = matches self c"
  shows "move_scan self conns =
     (case find (matches self) conns of
        None \<Rightarrow> (False, self)
      | Some c \<Rightarrow> (True, self\<lparr>station := fst c\<rparr>))"
  using assms by (induction conns) auto

lemma move_known:
  "map_of station_catalog (station self) = Some here \<Longrightarrow>
     move self station_catalog =
       Inr (move_scan
              (if (line self, course self) \<in> set (map snd (connections here)) then self
               else reverse self)
              (connections here))"
  by (simp add: move_def Let_def)

lemma reverse_fields [simp]:
  "station (reverse self) = station self" "line (reverse self) = line self"
  "train_name (reverse self) = train_name self"
  by (simp_all add: reverse_def)

lemma move_False_keeps_station:
  assumes "move self station_catalog = Inr (False, self')"
  shows "station self' = station self"
proof (cases "map_of station_catalog (station self)")
  case None
  with assms show ?thesis by (simp add: move_def)
next
  case (Some here)
  let ?tr = "if (line self, course self) \<in> set (map snd (connections here)) then self
             else reverse self"
  from assms move_known [OF Some] have "move_scan ?tr (connections here) = (False, self')"
    by simp
  from move_scan_False [OF this] have "self' = ?tr" by simp
  then show ?thesis by simp
qed

lemma matches_in_connection:
  "matches self c \<Longrightarrow> in_connection (line self) c \<and> in_connection (course self) c"
  by (cases c) (auto simp: matches_def)

lemma in_connection_exact:
  assumes "line self \<noteq> fst c" and "line self \<noteq> snd (snd c)"
    and "course self \<noteq> fst c" and "course self \<noteq> fst (snd c)"
  shows "(in_connection (line self) c \<and> in_connection (course self) c) = matches self c"
  using assms by (cases c) (auto simp: matches_def)

lemma move_exact:
  assumes here: "map_of station_catalog (station self) = Some here"
    and exact: "\<forall>c\<in>set (connections here). \<forall>tr\<in>{self, reverse self}.
      (in_connection (line tr) c \<and> in_connection (course tr) c) = matches tr c"
  shows "move self station_catalog =
     Inr (let self' = (if \<exists>c\<in>set (connections here). matches self c then self
                       else reverse self)
          in case find (matches self') (connections here) of
               None \<Rightarrow> (False, self')
             | Some c \<Rightarrow> (True, self'\<lparr>station := fst c\<rparr>))"
proof -
  let ?self' = "if \<exists>c\<in>set (connections here). matches self c then self else reverse self"
  have "(line self, course self) \<in> set (map snd (connections here)) \<longleftrightarrow>
      (\<exists>c\<in>set (connections here). matches self c)"
    by (force simp: matches_def)
  with move_known [OF here]
  have "move self station_catalog = Inr (move_scan ?self' (connections here))"
    by simp
  moreover from exact have "\<forall>c\<in>set (connections here).
      (in_connection (line ?self') c \<and> in_connection (course ?self') c) = matches ?self' c"
    by simp
  ultimately show ?thesis
    by (simp only: move_scan_exact Let_def)
qed

lemma find_None_none: "find P xs = None \<longleftrightarrow> (\<forall>x\<in>set xs. \<not> P x)"
  by (induction xs) auto

text \<open>
  With the exact comparison, a train without a connection on its line in either course
  stays where it is, and a moved train stays on its line in a loaded catalog.
\<close>

lemma move_fails_when_exact:
  assumes here: "map_of station_catalog (station self) = Some here"
    and exact: "\<forall>c\<in>set (connections here). \<forall>tr\<in>{self, reverse self}.
      (in_connection (line tr) c \<and> in_connection (course tr) c) = matches tr c"
    and none: "\<forall>c\<in>set (connections here). \<not> matches self c \<and> \<not> matches (reverse self) c"
  shows "move self station_catalog = Inr (False, reverse self)"
proof -
  from none have "\<not> (\<exists>c\<in>set (connections here). matches self c)"
    and "find (matches (reverse self)) (connections here) = None"
    by (simp_all add: find_None_none)
  with move_exact [OF here exact] show ?thesis
    by (simp add: Let_def)
qed

lemma find_Some_member: "find P xs = Some x \<Longrightarrow> x \<in> set xs \<and> P x"
  by (induction xs) (auto split: if_splits)

lemma move_keeps_line_when_exact:
  assumes load: "map_connections stations_list connections_list = Inr station_catalog"
    and here: "map_of station_catalog (station self) = Some here"
    and exact: "\<forall>c\<in>set (connections here). \<forall>tr\<in>{self, reverse self}.
      (in_connection (line tr) c \<and> in_connection (course tr) c) = matches tr c"
    and moved: "move self station_catalog = Inr (True, self')"
  shows "on_line station_catalog self'"
proof -
  define s where
    "s = (if \<exists>c\<in>set (connections here). matches self c then self else reverse self)"
  have fields: "line s = line self" "station s = station self"
    by (simp_all add: s_def)
  from move_exact [OF here exact, unfolded Let_def, folded s_def] moved
  have "(case find (matches s) (connections here) of
           None \<Rightarrow> (False, s)
         | Some c \<Rightarrow> (True, s\<lparr>station := fst c\<rparr>)) = (True, self')"
    by (simp only: sum.inject)
  then obtain c where
    found: "find (matches s) (connections here) = Some c" and
    self': "self' = s\<lparr>station := fst c\<rparr>"
    by (cases "find (matches s) (connections here)") auto
  from find_Some_member [OF found] have c: "c \<in> set (connections here)" "matches s c"
    by simp_all
  obtain b l d where cbld: "c = (b, l, d)" by (cases c)
  with c(2) fields(1) have l: "l = line self" by (simp add: matches_def)
  from here c(1) cbld l have "has_connection station_catalog (station self) (b, line self, d)"
    by (simp add: has_connection_def)
  from map_connections_symmetric [OF load this] obtain d' where
    "has_connection station_catalog b (station self, line self, d')"
    by blast
  then obtain st where st: "map_of station_catalog b = Some st"
    "(station self, line self, d') \<in> set (connections st)"
    by (auto simp: has_connection_def split: option.splits)
  from st(2) have "line self \<in> (\<lambda>c. fst (snd c)) ` set (connections st)"
    by force
  with st(1) self' cbld fields(1) show ?thesis
    by (simp add: on_line_def)
qed

text \<open>
  Claim C2 (movement success path) fails on the code. \<open>move\<close> checks the pair
  (line, course) exactly, but its scan tests \<open>self.line in connection and self.course in
  connection\<close> on the whole tuple (target, line, direction). In the loaded network
  B - A - S the southbound GREEN train at A matches exactly, is not reversed, and the
  first connection whose line is GREEN and whose direction is S leads to B; the scan
  instead stops at the northbound connection to the station named S, because the
  station name equals the course.
\<close>

theorem move_takes_northbound_connection:
  "map_connections [(''A'', 0), (''B'', 0), (''S'', 0)]
     [(''A'', ''S'', ''GREEN'', ''N''), (''B'', ''A'', ''GREEN'', ''N'')] = Inr green_network \<and>
   find (matches \<lparr>train_name = 1, station = ''A'', line = ''GREEN'', course = ''S''\<rparr>)
     [(''S'', ''GREEN'', ''N''), (''B'', ''GREEN'', ''S'')] = Some (''B'', ''GREEN'', ''S'') \<and>
   move \<lparr>train_name = 1, station = ''A'', line = ''GREEN'', course = ''S''\<rparr> green_network =
     Inr (True, \<lparr>train_name = 1, station = ''S'', line = ''GREEN'', course = ''S''\<rparr>)"
  by (simp add: green_network_def map_connections_def Station_build_catalog_def
        append_connection_def move_def matches_def)

text \<open>
  Claim C5 (train-on-line invariant) fails on the code, by the same membership test. In
  the loaded network the train seeded at A on the VICTORIA line satisfies the invariant;
  its move takes the DISTRICT connection to the station named VICTORIA, which has no
  VICTORIA connection, and returns True.
\<close>

theorem move_leaves_its_line:
  "map_connections [(''A'', 0), (''B'', 0), (''VICTORIA'', 0)]
     [(''A'', ''VICTORIA'', ''DISTRICT'', ''S''), (''A'', ''B'', ''VICTORIA'', ''S'')] =
     Inr victoria_network \<and>
   Train_build_catalog victoria_network 1 (\<lambda>i. if i = 0 then 0 else 1) =
     Inr [\<lparr>train_name = 1, station = ''A'', line = ''VICTORIA'', course = ''S''\<rparr>] \<and>
   on_line victoria_network
     \<lparr>train_name = 1, station = ''A'', line = ''VICTORIA'', course = ''S''\<rparr> \<and>
   move \<lparr>train_name = 1, station = ''A'', line = ''VICTORIA'', course = ''S''\<rparr>
     victoria_network =
     Inr (True, \<lparr>train_name = 1, station = ''VICTORIA'', line = ''VICTORIA'', course = ''S''\<rparr>) \<and>
   \<not> on_line victoria_network
     \<lparr>train_name = 1, station = ''VICTORIA'', line = ''VICTORIA'', course = ''S''\<rparr>"
  by (simp add: victoria_network_def map_connections_def Station_build_catalog_def
        append_connection_def Train_build_catalog_def choice_def move_def on_line_def)

text \<open>
  Claim C6 (movement failure) fails on the code, by the same membership test. Station A
  has no connection on the VICTORIA line in either course, yet the southbound VICTORIA
  train there is reversed and then moved along the DISTRICT connection to the station
  named VICTORIA, and \<open>move\<close> returns True.
\<close>

theorem move_succeeds_without_line_connection:
  "map_connections [(''A'', 0), (''VICTORIA'', 0)] [(''A'', ''VICTORIA'', ''DISTRICT'', ''N'')] =
     Inr district_network \<and>
   list_all (\<lambda>c. fst (snd c) \<noteq> ''VICTORIA'') [(''VICTORIA'', ''DISTRICT'', ''N'')] \<and>
   move \<lparr>train_name = 1, station = ''A'', line = ''VICTORIA'', course = ''S''\<rparr>
     district_network =
     Inr (True, \<lparr>train_name = 1, station = ''VICTORIA'', line = ''VICTORIA'', course = ''N''\<rparr>)"
  by (simp add: district_network_def map_connections_def Station_build_catalog_def
        append_connection_def move_def reverse_def)

section \<open>Properties of Train.simulate_turn\<close>

lemma move_total:
  "station train \<in> fst ` set station_catalog \<Longrightarrow>
     \<exists>ok train'. move train station_catalog = Inr (ok, train')"
proof -
  assume "station train \<in> fst ` set station_catalog"
  then obtain here where "map_of station_catalog (station train) = Some here"
    by (metis map_of_eq_None_iff not_Some_eq)
  then show ?thesis
    by (simp add: move_def Let_def)
qed

text \<open>
  Claim C3 (delay semantics of the turn step). With the random source as an oracle and
  every train standing at a station of the catalog, \<open>simulate_turn\<close> draws exactly one
  sample per train, in the registry's order; a train is left as it is when its sample is
  strictly less than the delay probability of its station, and otherwise it is the
  result of \<open>move\<close>. When every delay probability is 0 and the samples lie in [0,1),
  every train is the result of \<open>move\<close>.
\<close>

theorem simulate_turn_delay_semantics:
  assumes "\<forall>train\<in>set trains. station train \<in> fst ` set station_catalog"
  shows "\<exists>trains'.
      simulate_turn station_catalog trains random n = Inr (trains', n + length trains) \<and>
      length trains' = length trains \<and>
      (\<forall>k<length trains. \<exists>loc.
          map_of station_catalog (station (trains ! k)) = Some loc \<and>
          (if random (n + k) < delay_constant loc
           then trains' ! k = trains ! k
           else \<exists>ok. move (trains ! k) station_catalog = Inr (ok, trains' ! k))) \<and>
      ((\<forall>loc\<in>snd ` set station_catalog. delay_constant loc = 0) \<and>
       (\<forall>i. 0 \<le> random i \<and> random i < 1) \<longrightarrow>
         (\<forall>k<length trains. \<exists>ok. move (trains ! k) station_catalog = Inr (ok, trains' ! k)))"
  using assms
proof (induction trains arbitrary: n)
  case Nil
  then show ?case by simp
next
  case (Cons train rest)
  from Cons.prems have here: "station train \<in> fst ` set station_catalog"
    and rest: "\<forall>train\<in>set rest. station train \<in> fst ` set station_catalog"
    by simp_all
  from here obtain loc where loc: "map_of station_catalog (station train) = Some loc"
    by (metis map_of_eq_None_iff not_Some_eq)
  then have loc_in: "loc \<in> snd ` set station_catalog"
    by (metis map_of_SomeD snd_conv image_eqI)
  from move_total [OF here] obtain ok moved where
    moved: "move train station_catalog = Inr (ok, moved)"
    by blast
  from Cons.IH [OF rest, of "Suc n"] obtain rest' where
    run: "simulate_turn station_catalog rest random (Suc n) = Inr (rest', Suc n + length rest)"
    and len: "length rest' = length rest"
    and each: "\<forall>k<length rest. \<exists>loc.
          map_of station_catalog (station (rest ! k)) = Some loc \<and>
          (if random (Suc n + k) < delay_constant loc
           then rest' ! k = rest ! k
           else \<exists>ok. move (rest ! k) station_catalog = Inr (ok, rest' ! k))"
    and zero: "(\<forall>loc\<in>snd ` set station_catalog. delay_constant loc = 0) \<and>
       (\<forall>i. 0 \<le> random i \<and> random i < 1) \<longrightarrow>
         (\<forall>k<length rest. \<exists>ok. move (rest ! k) station_catalog = Inr (ok, rest' ! k))"
    by (elim exE conjE) blast
  let ?first = "if random n < delay_constant loc then train else moved"
  have result: "simulate_turn station_catalog (train # rest) random n =
      Inr (?first # rest', n + length (train # rest))"
    using loc moved run by simp
  have len': "length (?first # rest') = length (train # rest)"
    using len by simp
  have each': "\<exists>loc.
          map_of station_catalog (station ((train # rest) ! k)) = Some loc \<and>
          (if random (n + k) < delay_constant loc
           then (?first # rest') ! k = (train # rest) ! k
           else \<exists>ok. move ((train # rest) ! k) station_catalog = Inr (ok, (?first # rest') ! k))"
    if "k < length (train # rest)" for k
  proof (cases k)
    case 0
    with loc moved show ?thesis by simp
  next
    case (Suc j)
    with that have j: "j < length rest" by simp
    have eqs: "(train # rest) ! k = rest ! j" "(?first # rest') ! k = rest' ! j"
      "n + k = Suc n + j"
      using Suc by simp_all
    from each j show ?thesis
      unfolding eqs by blast
  qed
  have zero': "\<exists>ok. move ((train # rest) ! k) station_catalog = Inr (ok, (?first # rest') ! k)"
    if z: "(\<forall>loc\<in>snd ` set station_catalog. delay_constant loc = 0) \<and>
       (\<forall>i. 0 \<le> random i \<and> random i < 1)" and k: "k < length (train # rest)" for k
  proof (cases k)
    case 0
    from z loc_in have "delay_constant loc = 0" by blast
    moreover from z have "0 \<le> random n" by blast
    ultimately have "\<not> random n < delay_constant loc" by simp
    with 0 moved show ?thesis by simp
  next
    case (Suc j)
    with k have j: "j < length rest" by simp
    have eqs: "(train # rest) ! k = rest ! j" "(?first # rest') ! k = rest' ! j"
      using Suc by simp_all
    from zero z j show ?thesis
      unfolding eqs by blast
  qed
  show ?case
  proof (intro exI [of _ "?first # rest'"] conjI allI impI)
    show "simulate_turn station_catalog (train # rest) random n =
        Inr (?first # rest', n + length (train # rest))"
      by (rule result)
    show "length (?first # rest') = length (train # rest)"
      by (rule len')
  next
    fix k assume "k < length (train # rest)"
    then show "\<exists>loc.
          map_of station_catalog (station ((train # rest) ! k)) = Some loc \<and>
          (if random (n + k) < delay_constant loc
           then (?first # rest') ! k = (train # rest) ! k
           else \<exists>ok. move ((train # rest) ! k) station_catalog = Inr (ok, (?first # rest') ! k))"
      by (rule each')
  next
    fix k
    assume "(\<forall>loc\<in>snd ` set station_catalog. delay_constant loc = 0) \<and>
       (\<forall>i. 0 \<le> random i \<and> random i < 1)" and "k < length (train # rest)"
    then show "\<exists>ok. move ((train # rest) ! k) station_catalog = Inr (ok, (?first # rest') ! k)"
      by (rule zero')
  qed
qed

theorem simulate_turn_delay_semantics_witness:
  "simulate_turn
     [(''A'', \<lparr>name = ''A'', delay_constant = 1 / 2, connections = [(''B'', ''GREEN'', ''N'')]\<rparr>),
      (''B'', \<lparr>name = ''B'', delay_constant = 0, connections = [(''A'', ''GREEN'', ''S'')]\<rparr>)]
     [\<lparr>train_name = 1, station = ''A'', line = ''GREEN'', course = ''N''\<rparr>,
      \<lparr>train_name = 2, station = ''B'', line = ''GREEN'', course = ''N''\<rparr>]
     (\<lambda>i. if i = 0 then 1 / 4 else 3 / 4) 0 =
   Inr ([\<lparr>train_name = 1, station = ''A'', line = ''GREEN'', course = ''N''\<rparr>,
         \<lparr>train_name = 2, station = ''A'', line = ''GREEN'', course = ''S''\<rparr>], 2) \<and>
   simulate_turn
     [(''A'', \<lparr>name = ''A'', delay_constant = 0, connections = [(''B'', ''GREEN'', ''N'')]\<rparr>),
      (''B'', \<lparr>name = ''B'', delay_constant = 0, connections = [(''A'', ''GREEN'', ''S'')]\<rparr>)]
     [\<lparr>train_name = 1, station = ''A'', line = ''GREEN'', course = ''N''\<rparr>,
      \<lparr>train_name = 2, station = ''B'', line = ''GREEN'', course = ''N''\<rparr>]
     (\<lambda>i. if i = 0 then 1 / 4 else 3 / 4) 0 =
   Inr ([\<lparr>train_name = 1, station = ''B'', line = ''GREEN'', course = ''N''\<rparr>,
         \<lparr>train_name = 2, station = ''A'', line = ''GREEN'', course = ''S''\<rparr>], 2)"
proof -
  let ?cat = "[(''A'', \<lparr>name = ''A'', delay_constant = 1 / 2, connections = [(''B'', ''GREEN'', ''N'')]\<rparr>),
      (''B'', \<lparr>name = ''B'', delay_constant = 0, connections = [(''A'', ''GREEN'', ''S'')]\<rparr>)]"
  let ?undelayed = "[(''A'', \<lparr>name = ''A'', delay_constant = 0, connections = [(''B'', ''GREEN'', ''N'')]\<rparr>),
      (''B'', \<lparr>name = ''B'', delay_constant = 0, connections = [(''A'', ''GREEN'', ''S'')]\<rparr>)]"
  let ?trains = "[\<lparr>train_name = 1, station = ''A'', line = ''GREEN'', course = ''N''\<rparr>,
      \<lparr>train_name = 2, station = ''B'', line = ''GREEN'', course = ''N''\<rparr>]"
  let ?random = "\<lambda>i::nat. if i = 0 then 1 / 4 else (3 / 4 :: real)"
  have known: "\<forall>train\<in>set ?trains. station train \<in> fst ` set ?cat"
    by simp
  from simulate_turn_delay_semantics [OF known, of ?random 0] obtain trains' where
    run: "simulate_turn ?cat ?trains ?random 0 = Inr (trains', 0 + length ?trains)"
    and skip: "\<forall>k<length ?trains. \<exists>loc.
          map_of ?cat (station (?trains ! k)) = Some loc \<and>
          (if ?random (0 + k) < delay_constant loc
           then trains' ! k = ?trains ! k
           else \<exists>ok. move (?trains ! k) ?cat = Inr (ok, trains' ! k))"
    and len: "length trains' = length ?trains"
    by blast
  from skip [rule_format, of 0] have first: "trains' ! 0 = ?trains ! 0"
    by simp
  from skip [rule_format, of 1]
  have second: "trains' ! 1 = \<lparr>train_name = 2, station = ''A'', line = ''GREEN'', course = ''S''\<rparr>"
    by (simp add: move_def reverse_def)
  from len first second
  have "trains' = [\<lparr>train_name = 1, station = ''A'', line = ''GREEN'', course = ''N''\<rparr>,
         \<lparr>train_name = 2, station = ''A'', line = ''GREEN'', course = ''S''\<rparr>]"
    by (cases trains'; cases "tl trains'") auto
  with run have delayed: "simulate_turn ?cat ?trains ?random 0 =
      Inr ([\<lparr>train_name = 1, station = ''A'', line = ''GREEN'', course = ''N''\<rparr>,
            \<lparr>train_name = 2, station = ''A'', line = ''GREEN'', course = ''S''\<rparr>], 2)"
    by simp
  have known0: "\<forall>train\<in>set ?trains. station train \<in> fst ` set ?undelayed"
    by simp
  have no_delay: "(\<forall>loc\<in>snd ` set ?undelayed. delay_constant loc = 0) \<and>
      (\<forall>i. 0 \<le> ?random i \<and> ?random i < 1)"
    by simp
  from simulate_turn_delay_semantics [OF known0, of ?random 0] obtain moved where
    run0: "simulate_turn ?undelayed ?trains ?random 0 = Inr (moved, 0 + length ?trains)"
    and len0: "length moved = length ?trains"
    and all_move: "(\<forall>loc\<in>snd ` set ?undelayed. delay_constant loc = 0) \<and>
       (\<forall>i. 0 \<le> ?random i \<and> ?random i < 1) \<longrightarrow>
         (\<forall>k<length ?trains. \<exists>ok. move (?trains ! k) ?undelayed = Inr (ok, moved ! k))"
    by blast
  from all_move no_delay
  have each: "\<forall>k<length ?trains. \<exists>ok. move (?trains ! k) ?undelayed = Inr (ok, moved ! k)"
    by (rule mp)
  from each [rule_format, of 0]
  have first0: "moved ! 0 = \<lparr>train_name = 1, station = ''B'', line = ''GREEN'', course = ''N''\<rparr>"
    by (simp add: move_def)
  from each [rule_format, of 1]
  have second0: "moved ! 1 = \<lparr>train_name = 2, station = ''A'', line = ''GREEN'', course = ''S''\<rparr>"
    by (simp add: move_def reverse_def)
  from len0 first0 second0
  have "moved = [\<lparr>train_name = 1, station = ''B'', line = ''GREEN'', course = ''N''\<rparr>,
         \<lparr>train_name = 2, station = ''A'', line = ''GREEN'', course = ''S''\<rparr>]"
    by (cases moved; cases "tl moved") auto
  with run0 have "simulate_turn ?undelayed ?trains ?random 0 =
      Inr ([\<lparr>train_name = 1, station = ''B'', line = ''GREEN'', course = ''N''\<rparr>,
            \<lparr>train_name = 2, station = ''A'', line = ''GREEN'', course = ''S''\<rparr>], 2)"
    by simp
  with delayed show ?thesis ..
qed

section \<open>Properties of Train.build_catalog\<close>

lemma choice_nonempty: "xs \<noteq> [] \<Longrightarrow> \<exists>x\<in>set xs. choice xs r = Inr x"
  by (simp add: choice_def)

lemma choice_result: "choice xs r = Inr x \<Longrightarrow> x \<in> set xs"
  by (auto simp: choice_def split: if_splits)

lemma set_line_options_loop:
  "set (line_options_loop conns line_options) =
     set line_options \<union> (\<lambda>c. fst (snd c)) ` set conns"
  by (induction conns arbitrary: line_options) auto

lemma seed_trains_ok:
  assumes "stations \<noteq> []"
  shows "\<exists>trains i'. seed_trains stations n k pick i = Inr (trains, i') \<and>
           length trains = k \<and> (\<forall>train\<in>set trains. station train \<in> set stations)"
proof (induction k arbitrary: n i)
  case 0
  then show ?case by simp
next
  case (Suc k)
  from choice_nonempty [OF assms, of "pick i"] obtain st where
    st: "st \<in> set stations" "choice stations (pick i) = Inr st"
    by blast
  from choice_nonempty [of "[''N'', ''S'']" "pick (Suc i)"] obtain c where
    c: "choice [''N'', ''S''] (pick (Suc i)) = Inr c"
    by auto
  from Suc.IH [of "Suc n" "Suc (Suc i)"] obtain trains i' where
    rest: "seed_trains stations (Suc n) k pick (Suc (Suc i)) = Inr (trains, i')"
      "length trains = k" "\<forall>train\<in>set trains. station train \<in> set stations"
    by blast
  from st c rest show ?case by simp
qed

lemma assign_lines_on_line:
  "assign_lines station_catalog trains pick i = Inr (trains', i') \<Longrightarrow>
     length trains' = length trains \<and> (\<forall>train\<in>set trains'. on_line station_catalog train)"
proof (induction trains arbitrary: i trains')
  case Nil
  then show ?case by simp
next
  case (Cons train rest)
  from Cons.prems obtain st l rest' where
    st: "map_of station_catalog (station train) = Some st"
    and l: "choice (line_options_loop (connections st) []) (pick i) = Inr l"
    and rest: "assign_lines station_catalog rest pick (Suc i) = Inr (rest', i')"
    and res: "trains' = train\<lparr>line := l\<rparr> # rest'"
    by (auto split: option.splits sum.splits)
  from choice_result [OF l] have "l \<in> (\<lambda>c. fst (snd c)) ` set (connections st)"
    by (simp add: set_line_options_loop)
  with st have "on_line station_catalog (train\<lparr>line := l\<rparr>)"
    by (simp add: on_line_def)
  with Cons.IH [OF rest] res show ?case by simp
qed

lemma assign_lines_ok:
  assumes "\<forall>train\<in>set trains. \<exists>st. map_of station_catalog (station train) = Some st \<and>
             connections st \<noteq> []"
  shows "\<exists>trains' i'. assign_lines station_catalog trains pick i = Inr (trains', i')"
  using assms
proof (induction trains arbitrary: i)
  case Nil
  then show ?case by simp
next
  case (Cons train rest)
  from Cons.prems obtain st where
    st: "map_of station_catalog (station train) = Some st" "connections st \<noteq> []"
    by auto
  from st(2) have "line_options_loop (connections st) [] \<noteq> []"
    using set_line_options_loop [of "connections st" "[]"]
    by (metis Un_empty_left image_is_empty set_empty)
  from choice_nonempty [OF this, of "pick i"] obtain l where
    l: "choice (line_options_loop (connections st) []) (pick i) = Inr l"
    by blast
  from Cons.prems have "\<forall>train\<in>set rest. \<exists>st. map_of station_catalog (station train) = Some st \<and>
             connections st \<noteq> []"
    by simp
  from Cons.IH [OF this, of "Suc i"] obtain rest' i' where
    "assign_lines station_catalog rest pick (Suc i) = Inr (rest', i')"
    by blast
  with st l show ?case by simp
qed

lemma Train_build_catalog_on_line:
  assumes "Train_build_catalog station_catalog train_count pick = Inr catalog"
  shows "\<forall>train\<in>set catalog. on_line station_catalog train"
proof -
  from assms obtain seeded i i' where
    "assign_lines station_catalog seeded pick i = Inr (catalog, i')"
    by (auto simp: Train_build_catalog_def split: sum.splits)
  from assign_lines_on_line [OF this] show ?thesis by simp
qed

text \<open>The only exception seeding can raise is the IndexError of an empty choice.\<close>

lemma choice_error: "choice xs r = Inl e \<Longrightarrow> e = IndexError"
  by (simp add: choice_def split: if_splits)

lemma seed_trains_error: "seed_trains stations n k pick i = Inl e \<Longrightarrow> e = IndexError"
proof (induction k arbitrary: n i)
  case 0
  then show ?case by simp
next
  case (Suc k)
  then show ?case
    by (auto split: sum.splits dest: choice_error)
qed

lemma seed_trains_stations:
  "seed_trains stations n k pick i = Inr (trains, i') \<Longrightarrow>
     \<forall>train\<in>set trains. station train \<in> set stations"
proof (induction k arbitrary: n i trains)
  case 0
  then show ?case by simp
next
  case (Suc k)
  from Suc.prems obtain st c rest where
    st: "choice stations (pick i) = Inr st"
    and rest: "seed_trains stations (Suc n) k pick (Suc (Suc i)) = Inr (rest, i')"
    and trains: "trains = \<lparr>train_name = n + 1, station = st, line = [], course = c\<rparr> # rest"
    by (auto split: sum.splits)
  from choice_result [OF st] Suc.IH [OF rest] trains show ?case by simp
qed

lemma assign_lines_error:
  assumes "\<forall>train\<in>set trains. station train \<in> fst ` set station_catalog"
    and "assign_lines station_catalog trains pick i = Inl e"
  shows "e = IndexError"
  using assms
proof (induction trains arbitrary: i)
  case Nil
  then show ?case by simp
next
  case (Cons train rest)
  from Cons.prems(1) have "map_of station_catalog (station train) \<noteq> None"
    by (simp add: map_of_eq_None_iff)
  then obtain st where st: "map_of station_catalog (station train) = Some st"
    by blast
  from Cons.prems(1) have rest: "\<forall>train\<in>set rest. station train \<in> fst ` set station_catalog"
    by simp
  from Cons.prems(2) st Cons.IH [OF rest, of "Suc i"] show ?case
    by (auto split: sum.splits dest: choice_error)
qed

lemma Train_build_catalog_error:
  assumes "Train_build_catalog station_catalog train_count pick = Inl e"
  shows "e = IndexError"
proof (cases "seed_trains (map fst station_catalog) 0 train_count pick 0")
  case (Inl e')
  with assms seed_trains_error [OF Inl] show ?thesis
    by (simp add: Train_build_catalog_def)
next
  case (Inr r)
  obtain seeded i where r: "r = (seeded, i)" by (cases r)
  from seed_trains_stations [OF Inr [unfolded r]]
  have "\<forall>train\<in>set seeded. station train \<in> fst ` set station_catalog" by simp
  moreover from assms Inr r have "assign_lines station_catalog seeded pick i = Inl e"
    by (auto simp: Train_build_catalog_def split: sum.splits)
  ultimately show ?thesis by (rule assign_lines_error)
qed

text \<open>
  Claim C9 (seeding guard), as amended. \<open>Train.build_catalog\<close> has no guard for
  stations without connections. On a non-empty catalog in which every station has at
  least one connection it never chooses from an empty list: for every train count and
  every random source it returns that many trains, each on a line of a connection of
  its station.
\<close>

theorem Train_build_catalog_never_empty_choice:
  assumes "station_catalog \<noteq> []"
    and "\<forall>(key, st)\<in>set station_catalog. connections st \<noteq> []"
  shows "\<exists>catalog. Train_build_catalog station_catalog train_count pick = Inr catalog \<and>
           length catalog = train_count \<and>
           (\<forall>train\<in>set catalog. on_line station_catalog train)"
proof -
  from assms(1) have "map fst station_catalog \<noteq> []" by simp
  from seed_trains_ok [OF this, of 0 train_count pick 0] obtain seeded i where
    seeded: "seed_trains (map fst station_catalog) 0 train_count pick 0 = Inr (seeded, i)"
      "length seeded = train_count"
      "\<forall>train\<in>set seeded. station train \<in> set (map fst station_catalog)"
    by blast
  have "\<exists>st. map_of station_catalog (station train) = Some st \<and> connections st \<noteq> []"
    if "train \<in> set seeded" for train
  proof -
    from seeded(3) that have "station train \<in> fst ` set station_catalog" by simp
    then obtain st where st: "map_of station_catalog (station train) = Some st"
      by (metis map_of_eq_None_iff not_Some_eq)
    then have "(station train, st) \<in> set station_catalog" by (rule map_of_SomeD)
    with assms(2) have "connections st \<noteq> []" by blast
    with st show ?thesis by blast
  qed
  then have "\<forall>train\<in>set seeded. \<exists>st. map_of station_catalog (station train) = Some st \<and>
      connections st \<noteq> []" ..
  from assign_lines_ok [OF this, of pick i] obtain catalog i' where
    assigned: "assign_lines station_catalog seeded pick i = Inr (catalog, i')"
    by blast
  from assign_lines_on_line [OF assigned] seeded(2)
  have "length catalog = train_count" "\<forall>train\<in>set catalog. on_line station_catalog train"
    by simp_all
  moreover from seeded(1) assigned
  have "Train_build_catalog station_catalog train_count pick = Inr catalog"
    by (simp add: Train_build_catalog_def)
  ultimately show ?thesis by blast
qed

text \<open>
  The claim as stated fails: station C of this loaded catalog has no connection, and
  when the random source places the train there the line is chosen from the empty list,
  which raises IndexError.
\<close>

theorem Train_build_catalog_empty_choice_counterexample:
  "map_connections [(''A'', 0), (''B'', 0), (''C'', 0)] [(''A'', ''B'', ''GREEN'', ''N'')] =
     Inr [(''A'', \<lparr>name = ''A'', delay_constant = 0, connections = [(''B'', ''GREEN'', ''N'')]\<rparr>),
          (''B'', \<lparr>name = ''B'', delay_constant = 0, connections = [(''A'', ''GREEN'', ''S'')]\<rparr>),
          (''C'', \<lparr>name = ''C'', delay_constant = 0, connections = []\<rparr>)] \<and>
   Train_build_catalog
     [(''A'', \<lparr>name = ''A'', delay_constant = 0, connections = [(''B'', ''GREEN'', ''N'')]\<rparr>),
      (''B'', \<lparr>name = ''B'', delay_constant = 0, connections = [(''A'', ''GREEN'', ''S'')]\<rparr>),
      (''C'', \<lparr>name = ''C'', delay_constant = 0, connections = []\<rparr>)]
     1 (\<lambda>i. 2) = Inl IndexError"
  by (simp add: map_connections_def Station_build_catalog_def append_connection_def
        Train_build_catalog_def choice_def)

theorem Train_build_catalog_never_empty_choice_witness:
  "Train_build_catalog
     [(''A'', \<lparr>name = ''A'', delay_constant = 0, connections = [(''B'', ''GREEN'', ''N'')]\<rparr>),
      (''B'', \<lparr>name = ''B'', delay_constant = 0, connections = [(''A'', ''GREEN'', ''S'')]\<rparr>)]
     2 (\<lambda>i. 0) =
   Inr [\<lparr>train_name = 1, station = ''A'', line = ''GREEN'', course = ''N''\<rparr>,
        \<lparr>train_name = 2, station = ''A'', line = ''GREEN'', course = ''N''\<rparr>]"
proof -
  let ?cat = "[(''A'', \<lparr>name = ''A'', delay_constant = 0, connections = [(''B'', ''GREEN'', ''N'')]\<rparr>),
      (''B'', \<lparr>name = ''B'', delay_constant = 0, connections = [(''A'', ''GREEN'', ''S'')]\<rparr>)]"
  have ne: "?cat \<noteq> []" by simp
  have conns: "\<forall>(key, st)\<in>set ?cat. connections st \<noteq> []" by simp
  from Train_build_catalog_never_empty_choice [OF ne conns, of 2 "\<lambda>i. 0"]
  obtain catalog where "Train_build_catalog ?cat 2 (\<lambda>i. 0) = Inr catalog" by blast
  moreover have "Train_build_catalog ?cat 2 (\<lambda>i. 0) =
    Inr [\<lparr>train_name = 1, station = ''A'', line = ''GREEN'', course = ''N''\<rparr>,
        \<lparr>train_name = 2, station = ''A'', line = ''GREEN'', course = ''N''\<rparr>]"
    by (simp add: Train_build_catalog_def choice_def numeral_2_eq_2)
  ultimately show ?thesis by simp
qed

end
